theory Spec2Isabelle
  imports Main "HOL-Library.Extended_Nat" "HOL-Library.List_Lexorder" "HOL-Library.Char_ord"
    "HOL-Library.Sublist"
begin

section \<open>Text helpers of the cleaning routine\<close>

text \<open>
  Names are Python \<open>str\<close> values. They are modelled as \<^typ>\<open>string\<close> restricted to
  ASCII: a \<^typ>\<open>char\<close> stands for a code point below 128, and the character classes
  below are Python's \<open>str.isspace\<close>, \<open>str.upper\<close>, \<open>str.lower\<close> and the \<open>re\<close>
  classes \<open>\w\<close>, \<open>\s\<close> on that range. A nullable \<open>name\<close> cell read from SQLite is
  a \<^typ>\<open>string option\<close>, with \<open>None\<close> for SQL \<open>NULL\<close>.
\<close>

definition is_upper :: "char \<Rightarrow> bool" where
  "is_upper c = (65 \<le> (of_char c :: nat) \<and> (of_char c :: nat) \<le> 90)"

definition is_lower :: "char \<Rightarrow> bool" where
  "is_lower c = (97 \<le> (of_char c :: nat) \<and> (of_char c :: nat) \<le> 122)"

definition is_digit :: "char \<Rightarrow> bool" where
  "is_digit c = (48 \<le> (of_char c :: nat) \<and> (of_char c :: nat) \<le> 57)"

definition is_alnum :: "char \<Rightarrow> bool" where
  \<comment> \<open>the class \<open>[a-zA-Z0-9]\<close>\<close>
  "is_alnum c = (is_lower c \<or> is_upper c \<or> is_digit c)"

definition is_word :: "char \<Rightarrow> bool" where
  \<comment> \<open>the class \<open>\w\<close>: alphanumeric or underscore\<close>
  "is_word c = (is_alnum c \<or> c = CHR ''_'')"

definition is_space :: "char \<Rightarrow> bool" where
  \<comment> \<open>\<open>str.isspace\<close> and \<open>\s\<close>: code points 9 to 13 and 28 to 32\<close>
  "is_space c = ((9 \<le> (of_char c :: nat) \<and> (of_char c :: nat) \<le> 13)
               \<or> (28 \<le> (of_char c :: nat) \<and> (of_char c :: nat) \<le> 32))"

definition to_lower :: "char \<Rightarrow> char" where
  "to_lower c = (if is_upper c then char_of ((of_char c :: nat) + 32) else c)"

definition to_upper :: "char \<Rightarrow> char" where
  "to_upper c = (if is_lower c then char_of ((of_char c :: nat) - 32) else c)"

definition lower :: "string \<Rightarrow> string" where
  \<comment> \<open>\<open>str.lower()\<close>, also SQLite's \<open>LOWER\<close>, which folds ASCII only\<close>
  "lower s = map to_lower s"

definition capitalize :: "string \<Rightarrow> string" where
  \<comment> \<open>\<open>str.capitalize()\<close>: first character upper-cased, all the others lower-cased\<close>
  "capitalize w = (case w of [] \<Rightarrow> [] | c # cs \<Rightarrow> to_upper c # lower cs)"

definition replace :: "char \<Rightarrow> char \<Rightarrow> string \<Rightarrow> string" where
  "replace old new s = map (\<lambda>c. if c = old then new else c) s"

fun split :: "char \<Rightarrow> string \<Rightarrow> string list" where
  \<comment> \<open>\<open>s.split(sep)\<close> with a one-character separator: empty tokens are kept\<close>
  "split sep [] = [[]]"
| "split sep (c # cs) =
     (if c = sep then [] # split sep cs
      else (case split sep cs of [] \<Rightarrow> [[c]] | w # ws \<Rightarrow> (c # w) # ws))"

fun join :: "string \<Rightarrow> string list \<Rightarrow> string" where
  "join sep [] = []"
| "join sep [w] = w"
| "join sep (w # ws) = w @ sep @ join sep ws"

definition to_title_case :: "string \<Rightarrow> string" where
  "to_title_case text =
     (if text = [] then text
      else join '' '' (map capitalize (split CHR '' '' (replace CHR ''-'' CHR '' '' text))))"

definition to_title_case_value :: "string option \<Rightarrow> string option" where
  \<comment> \<open>the same function called with a value that may be \<open>None\<close>: \<open>if not text: return text\<close>\<close>
  "to_title_case_value text = (case text of None \<Rightarrow> None | Some s \<Rightarrow> Some (to_title_case s))"

definition normalize_string :: "string \<Rightarrow> string" where
  "normalize_string s = (if s = [] then [] else lower (filter is_alnum s))"

definition strip :: "string \<Rightarrow> string" where
  "strip s = rev (dropWhile is_space (rev (dropWhile is_space s)))"

definition junk_pattern_global_match :: "string \<Rightarrow> bool" where
  \<comment> \<open>\<open>re.compile(r'^\W*$|^\s*$').match(s)\<close>. The \<open>$\<close> also matches before a final
      newline, which is itself in both classes, so each alternative matches exactly the
      strings made of its class.\<close>
  "junk_pattern_global_match s = (list_all (\<lambda>c. \<not> is_word c) s \<or> list_all is_space s)"

definition is_junk :: "string option \<Rightarrow> bool" where
  \<comment> \<open>\<open>not name or not str(name).strip() or junk_pattern_global.match(str(name))\<close>\<close>
  "is_junk current_name_db =
     (case current_name_db of
        None \<Rightarrow> True
      | Some s \<Rightarrow> s = [] \<or> strip s = [] \<or> junk_pattern_global_match s)"

subsection \<open>The display form as the specification words it\<close>

definition capitalize_first :: "string \<Rightarrow> string" where
  \<comment> \<open>"capitalize the first letter of each token": the other letters are left alone\<close>
  "capitalize_first w = (case w of [] \<Rightarrow> [] | c # cs \<Rightarrow> to_upper c # cs)"

definition displayForm_spec :: "string \<Rightarrow> string" where
  "displayForm_spec raw =
     (if raw = [] then raw
      else join '' '' (map capitalize_first (split CHR '' '' (replace CHR ''-'' CHR '' '' raw))))"

fun title_scan :: "bool \<Rightarrow> string \<Rightarrow> string" where
  \<comment> \<open>one pass over the text; the flag says that a token starts here\<close>
  "title_scan start [] = []"
| "title_scan start (c # cs) =
     (if c = CHR ''-'' \<or> c = CHR '' '' then CHR '' '' # title_scan True cs
      else (if start then to_upper c else to_lower c) # title_scan False cs)"

section \<open>Edit distance\<close>

text \<open>
  \<open>levenshtein_distance\<close> keeps one row of the table. The inner loop runs over
  \<open>enumerate(s2)\<close> and appends to \<open>current_row\<close>; the outer loop runs over
  \<open>enumerate(s1)\<close>. The recursive call swaps the arguments once, when \<open>s1\<close> is the
  shorter string.
\<close>

fun inner_loop :: "char \<Rightarrow> nat list \<Rightarrow> (nat \<times> char) list \<Rightarrow> nat list \<Rightarrow> nat list" where
  "inner_loop c1 previous_row [] current_row = current_row"
| "inner_loop c1 previous_row ((j, c2) # rest) current_row =
     (let insertions = previous_row ! (j + 1) + 1;
          deletions = current_row ! j + 1;
          substitutions = previous_row ! j + (if c1 \<noteq> c2 then 1 else 0)
      in inner_loop c1 previous_row rest
           (current_row @ [min (min insertions deletions) substitutions]))"

fun outer_loop :: "(nat \<times> char) list \<Rightarrow> string \<Rightarrow> nat list \<Rightarrow> nat list" where
  "outer_loop [] s2 previous_row = previous_row"
| "outer_loop ((i, c1) # rest) s2 previous_row =
     outer_loop rest s2 (inner_loop c1 previous_row (List.enumerate 0 s2) [i + 1])"

function levenshtein_distance :: "string \<Rightarrow> string \<Rightarrow> nat" where
  "levenshtein_distance s1 s2 =
     (if length s1 < length s2 then levenshtein_distance s2 s1
      else if length s2 = 0 then length s1
      else last (outer_loop (List.enumerate 0 s1) s2 [0..<length s2 + 1]))"
  by pat_completeness auto
termination
  by (relation "measure (\<lambda>(s1, s2). if length s1 < length s2 then 1 else 0)") auto

declare levenshtein_distance.simps [simp del]

fun edit_table :: "string \<Rightarrow> string \<Rightarrow> nat \<Rightarrow> nat \<Rightarrow> nat" where
  \<comment> \<open>the classic recurrence: the distance between the first \<open>i\<close> characters of \<open>a\<close>
      and the first \<open>j\<close> characters of \<open>b\<close>, every edit costing 1\<close>
  "edit_table a b 0 j = j"
| "edit_table a b (Suc i) 0 = Suc i"
| "edit_table a b (Suc i) (Suc j) =
     min (min (edit_table a b i (Suc j) + 1) (edit_table a b (Suc i) j + 1))
         (edit_table a b i j + (if a ! i = b ! j then 0 else 1))"

section \<open>Reference vocabularies\<close>

text \<open>
  \<open>_fetch_all_pokeapi_resources\<close> follows the \<open>next\<close> pointer of each page until it is
  falsy. The network is the list of the answers that the successive \<open>requests.get\<close>
  calls receive. A call either raises a \<open>RequestException\<close> (transport error, timeout
  or non-success status), or returns a page with its names and its \<open>next\<close> field, or
  returns a JSON object without one of the expected keys, on which \<open>data['results']\<close>,
  \<open>item['name']\<close> or \<open>data['next']\<close> raises \<open>KeyError\<close>, or returns a JSON value that
  is no object (a list, \<open>null\<close>, a number), on which \<open>data['results']\<close> raises
  \<open>TypeError\<close>. Neither is a \<open>RequestException\<close>: both leave the fetch. When the list
  is used up before a page ends the walk, the function has not returned: the result is
  \<open>None\<close>.
\<close>

text \<open>
  The classes of \<open>sqlite3.Error\<close> that the code tells apart. The message of an
  \<open>OperationalError\<close> is kept as far as the code inspects it.
\<close>

datatype op_message = NoSuchColumn | NoSuchTable | OtherMessage

datatype sqlite_error = OperationalError op_message | IntegrityError | DatabaseError

datatype message = FetchWarning string | CleaningError sqlite_error

text \<open>
  The exceptions that the code can meet: a storage error, and the two that a body of
  the wrong shape raises in the fetch.
\<close>

datatype py_exception = SqliteError sqlite_error | KeyError | TypeError

datatype response =
    RequestException
  | Page "string list" "string option"
  | LacksKey
  | NotAnObject

datatype 'a fetched = Names 'a | Raised py_exception

fun truthy :: "string option \<Rightarrow> bool" where
  "truthy None = False"
| "truthy (Some u) = (u \<noteq> [])"

fun fetch_loop :: "string \<Rightarrow> response list \<Rightarrow> string option \<Rightarrow> string list
    \<Rightarrow> ((string list \<times> message list) fetched) option" where
  "fetch_loop endpoint_name rs url names =
     (if truthy url then
        (case rs of
           [] \<Rightarrow> None
         | RequestException # rest \<Rightarrow> Some (Names ([], [FetchWarning endpoint_name]))
         | LacksKey # rest \<Rightarrow> Some (Raised KeyError)
         | NotAnObject # rest \<Rightarrow> Some (Raised TypeError)
         | Page results nxt # rest \<Rightarrow> fetch_loop endpoint_name rest nxt (List.union names results))
      else Some (Names (sort (remdups names), [])))"

definition POKEAPI_BASE_URL :: string where
  "POKEAPI_BASE_URL = ''https://pokeapi.co/api/v2/''"

definition fetch_all_pokeapi_resources :: "(string \<Rightarrow> response list) \<Rightarrow> string
    \<Rightarrow> ((string list \<times> message list) fetched) option" where
  "fetch_all_pokeapi_resources net endpoint_name =
     fetch_loop endpoint_name (net endpoint_name)
       (Some (POKEAPI_BASE_URL @ endpoint_name @ ''/?limit=10000'')) []"

definition raw_valid_trainer_names_list :: "string list" where
  "raw_valid_trainer_names_list =
     [''Ash Ketchum'', ''Brock'', ''Gary Oak'', ''Professor Oak'', ''Misty'']"

text \<open>
  A Python \<open>dict\<close> keeps its keys in insertion order; storing under a key that is
  already there replaces the value and keeps the position.
\<close>

fun dict_set :: "(string \<times> string) list \<Rightarrow> string \<Rightarrow> string \<Rightarrow> (string \<times> string) list" where
  "dict_set [] k v = [(k, v)]"
| "dict_set ((k', v') # d) k v = (if k' = k then (k, v) # d else (k', v') # dict_set d k v)"

definition valid_map_of :: "string list \<Rightarrow> (string \<times> string) list" where
  \<comment> \<open>\<open>{normalize_string(name): to_title_case(name) for name in names}\<close>\<close>
  "valid_map_of names =
     fold (\<lambda>name d. dict_set d (normalize_string name) (to_title_case name)) names []"

definition original_valid_set_of :: "string list \<Rightarrow> string list" where
  \<comment> \<open>\<open>{to_title_case(name) for name in names}\<close>, only ever tested for membership\<close>
  "original_valid_set_of names = remdups (map to_title_case names)"

section \<open>The matcher of the correction pass\<close>

fun fuzzy_scan :: "string \<Rightarrow> (string \<times> string) list \<Rightarrow> string \<times> enat \<Rightarrow> string \<times> enat" where
  \<comment> \<open>the loop over \<open>valid_map.items()\<close>, on the pair \<open>(proposed_new_name, min_distance)\<close>\<close>
  "fuzzy_scan normalized_current_name_db [] st = st"
| "fuzzy_scan normalized_current_name_db ((valid_normalized_name, valid_title_case_name) # rest)
      (proposed_new_name, min_distance) =
     (let dist = levenshtein_distance normalized_current_name_db valid_normalized_name in
      if enat dist < min_distance then
        fuzzy_scan normalized_current_name_db rest (valid_title_case_name, enat dist)
      else if enat dist = min_distance
              \<and> length valid_normalized_name < length (normalize_string proposed_new_name) then
        fuzzy_scan normalized_current_name_db rest (valid_title_case_name, min_distance)
      else fuzzy_scan normalized_current_name_db rest (proposed_new_name, min_distance))"

definition propose :: "(string \<times> string) list \<Rightarrow> nat \<Rightarrow> string \<Rightarrow> string" where
  \<comment> \<open>the body of the row loop after the junk test; the flag \<open>confident_match_found\<close>
      is written there but never read\<close>
  "propose valid_map threshold current_name_db =
     (let normalized_current_name_db = normalize_string current_name_db in
      case map_of valid_map normalized_current_name_db of
        Some v \<Rightarrow> v
      | None \<Rightarrow>
          (let (proposed_new_name, min_distance) =
                 fuzzy_scan normalized_current_name_db valid_map
                   (to_title_case current_name_db, \<infinity>)
           in if min_distance > enat threshold then to_title_case current_name_db
              else proposed_new_name))"

section \<open>The store\<close>

text \<open>
  The cleaning code names five tables and, through \<open>fk_relationships\<close>, five foreign key
  columns. A row carries every column the code names; a column that a table does not
  have stays \<open>NULL\<close> and is never read or written. The rows of a table are kept in rowid
  order.
\<close>

datatype table = Pokemon | Types | Abilities | Trainers | Trainer_pokemon_abilities

datatype column = Type1_id | Type2_id | Pokemon_id | Trainer_id | Ability_id

record row =
  r_id :: int
  r_name :: "string option"
  r_type1_id :: "int option"
  r_type2_id :: "int option"
  r_pokemon_id :: "int option"
  r_trainer_id :: "int option"
  r_ability_id :: "int option"

record db =
  t_pokemon :: "row list"
  t_types :: "row list"
  t_abilities :: "row list"
  t_trainers :: "row list"
  t_trainer_pokemon_abilities :: "row list"

fun rows_of :: "table \<Rightarrow> db \<Rightarrow> row list" where
  "rows_of Pokemon d = t_pokemon d"
| "rows_of Types d = t_types d"
| "rows_of Abilities d = t_abilities d"
| "rows_of Trainers d = t_trainers d"
| "rows_of Trainer_pokemon_abilities d = t_trainer_pokemon_abilities d"

fun set_rows :: "table \<Rightarrow> row list \<Rightarrow> db \<Rightarrow> db" where
  "set_rows Pokemon rs d = d\<lparr>t_pokemon := rs\<rparr>"
| "set_rows Types rs d = d\<lparr>t_types := rs\<rparr>"
| "set_rows Abilities rs d = d\<lparr>t_abilities := rs\<rparr>"
| "set_rows Trainers rs d = d\<lparr>t_trainers := rs\<rparr>"
| "set_rows Trainer_pokemon_abilities rs d = d\<lparr>t_trainer_pokemon_abilities := rs\<rparr>"

fun col :: "column \<Rightarrow> row \<Rightarrow> int option" where
  "col Type1_id r = r_type1_id r"
| "col Type2_id r = r_type2_id r"
| "col Pokemon_id r = r_pokemon_id r"
| "col Trainer_id r = r_trainer_id r"
| "col Ability_id r = r_ability_id r"

fun set_col :: "column \<Rightarrow> int option \<Rightarrow> row \<Rightarrow> row" where
  "set_col Type1_id v r = r\<lparr>r_type1_id := v\<rparr>"
| "set_col Type2_id v r = r\<lparr>r_type2_id := v\<rparr>"
| "set_col Pokemon_id v r = r\<lparr>r_pokemon_id := v\<rparr>"
| "set_col Trainer_id v r = r\<lparr>r_trainer_id := v\<rparr>"
| "set_col Ability_id v r = r\<lparr>r_ability_id := v\<rparr>"

definition fk_relationships :: "(table \<times> column \<times> table) list" where
  "fk_relationships =
     [(Pokemon, Type1_id, Types),
      (Pokemon, Type2_id, Types),
      (Trainer_pokemon_abilities, Pokemon_id, Pokemon),
      (Trainer_pokemon_abilities, Trainer_id, Trainers),
      (Trainer_pokemon_abilities, Ability_id, Abilities)]"

subsection \<open>Statements\<close>

datatype stmt =
    PragmaForeignKeysOn
  | SelectIdName table
  | DeleteWhereId table int
  | SelectNameWhereId table int
  | UpdateNameWhereId table string int
  | UpdateFkNull table column int
  | SelectDuplicates table
  | UpdateFkRemap table column int "int list"
  | DeleteWhereIdIn table "int list"
  | Commit

fun apply_stmt :: "stmt \<Rightarrow> db \<Rightarrow> db" where
  "apply_stmt (DeleteWhereId t i) d = set_rows t (filter (\<lambda>r. r_id r \<noteq> i) (rows_of t d)) d"
| "apply_stmt (UpdateNameWhereId t n i) d =
     set_rows t (map (\<lambda>r. if r_id r = i then r\<lparr>r_name := Some n\<rparr> else r) (rows_of t d)) d"
| "apply_stmt (UpdateFkNull ft fc i) d =
     set_rows ft (map (\<lambda>r. if col fc r = Some i then set_col fc None r else r) (rows_of ft d)) d"
| "apply_stmt (UpdateFkRemap ft fc new olds) d =
     set_rows ft
       (map (\<lambda>r. case col fc r of
                    None \<Rightarrow> r
                  | Some v \<Rightarrow> if v \<in> set olds then set_col fc (Some new) r else r)
            (rows_of ft d)) d"
| "apply_stmt (DeleteWhereIdIn t ids) d =
     set_rows t (filter (\<lambda>r. r_id r \<notin> set ids) (rows_of t d)) d"
| "apply_stmt PragmaForeignKeysOn d = d"
| "apply_stmt (SelectIdName t) d = d"
| "apply_stmt (SelectNameWhereId t i) d = d"
| "apply_stmt (SelectDuplicates t) d = d"
| "apply_stmt Commit d = d"

fun is_mutation :: "stmt \<Rightarrow> bool" where
  "is_mutation (DeleteWhereId t i) = True"
| "is_mutation (UpdateNameWhereId t n i) = True"
| "is_mutation (UpdateFkNull ft fc i) = True"
| "is_mutation (UpdateFkRemap ft fc new olds) = True"
| "is_mutation (DeleteWhereIdIn t ids) = True"
| "is_mutation PragmaForeignKeysOn = False"
| "is_mutation (SelectIdName t) = False"
| "is_mutation (SelectNameWhereId t i) = False"
| "is_mutation (SelectDuplicates t) = False"
| "is_mutation Commit = False"

text \<open>What the three kinds of \<open>SELECT\<close> return.\<close>

definition select_id_name :: "table \<Rightarrow> db \<Rightarrow> (int \<times> string option) list" where
  "select_id_name t d = map (\<lambda>r. (r_id r, r_name r)) (rows_of t d)"

definition select_name_where_id :: "table \<Rightarrow> int \<Rightarrow> db \<Rightarrow> string option option" where
  \<comment> \<open>\<open>fetchone()\<close>: \<open>None\<close> when no row has the id, else the name cell of the first\<close>
  "select_name_where_id t i d =
     (case filter (\<lambda>r. r_id r = i) (rows_of t d) of [] \<Rightarrow> None | r # _ \<Rightarrow> Some (r_name r))"

definition lower_name :: "row \<Rightarrow> string option" where
  \<comment> \<open>\<open>LOWER(name)\<close>; \<open>GROUP BY\<close> puts the \<open>NULL\<close>s in one group\<close>
  "lower_name r = map_option lower (r_name r)"

definition select_duplicates :: "table \<Rightarrow> db \<Rightarrow> (string option \<times> int \<times> int list) list" where
  \<comment> \<open>\<open>SELECT name, MIN(id), GROUP_CONCAT(id) ... GROUP BY LOWER(name) HAVING COUNT(*) > 1\<close>.
      SQL leaves the order of the groups open; here it is the order of the last rows of
      the groups. The ids of a group are listed in row order, as integers: the source
      reads them back from the comma-separated text with \<open>int\<close>. The bare \<open>name\<close> is the
      one of the row with the least id.\<close>
  "select_duplicates t d =
     concat (map (\<lambda>k.
        let grp = filter (\<lambda>r. lower_name r = k) (rows_of t d);
            canonical_id = Min (set (map r_id grp))
        in if length grp > 1
           then [(r_name (hd (filter (\<lambda>r. r_id r = canonical_id) grp)), canonical_id, map r_id grp)]
           else [])
      (remdups (map lower_name (rows_of t d))))"

subsection \<open>Executing a statement\<close>

text \<open>
  Any \<open>cursor.execute\<close> may raise an \<open>sqlite3.Error\<close>. Which statement fails on which
  state is decided by the storage layer (constraints of the schema, locks, the disk):
  it is a parameter of the model. The cursor keeps the state that the open
  transaction sees and the list of the statements that were executed.
\<close>

type_synonym faults = "stmt \<Rightarrow> db \<Rightarrow> sqlite_error option"

record cursor =
  store :: db
  trace :: "stmt list"

definition execute :: "faults \<Rightarrow> stmt \<Rightarrow> cursor \<Rightarrow> sqlite_error + cursor" where
  "execute flt q c =
     (case flt q (store c) of
        Some e \<Rightarrow> Inl e
      | None \<Rightarrow> Inr \<lparr>store = apply_stmt q (store c), trace = trace c @ [q]\<rparr>)"

fun tolerated :: "sqlite_error \<Rightarrow> bool" where
  \<comment> \<open>\<open>"no such column" in str(e) or "no such table" in str(e)\<close>, on an \<open>OperationalError\<close>\<close>
  "tolerated (OperationalError NoSuchColumn) = True"
| "tolerated (OperationalError NoSuchTable) = True"
| "tolerated e = False"


section \<open>The cleaning run\<close>

subsection \<open>Cascade to the dependent columns\<close>

fun nullify_loop :: "faults \<Rightarrow> int \<Rightarrow> table \<Rightarrow> (table \<times> column \<times> table) list \<Rightarrow> cursor
    \<Rightarrow> sqlite_error + cursor" where
  "nullify_loop flt deleted_id referenced_table_name [] c = Inr c"
| "nullify_loop flt deleted_id referenced_table_name ((fk_table, fk_column, ref_table) # rest) c =
     (if ref_table = referenced_table_name then
        (case execute flt (UpdateFkNull fk_table fk_column deleted_id) c of
           Inr c' \<Rightarrow> nullify_loop flt deleted_id referenced_table_name rest c'
         | Inl e \<Rightarrow>
             if tolerated e then nullify_loop flt deleted_id referenced_table_name rest c
             else Inl e)
      else nullify_loop flt deleted_id referenced_table_name rest c)"

definition nullify_fks_referencing_id :: "faults \<Rightarrow> int \<Rightarrow> table \<Rightarrow> cursor
    \<Rightarrow> sqlite_error + cursor" where
  "nullify_fks_referencing_id flt deleted_id referenced_table_name c =
     nullify_loop flt deleted_id referenced_table_name fk_relationships c"

fun remap_loop :: "faults \<Rightarrow> int \<Rightarrow> int list \<Rightarrow> table \<Rightarrow> (table \<times> column \<times> table) list
    \<Rightarrow> cursor \<Rightarrow> sqlite_error + cursor" where
  "remap_loop flt canonical_id duplicate_ids_to_remove table_name [] c = Inr c"
| "remap_loop flt canonical_id duplicate_ids_to_remove table_name
      ((fk_table, fk_column, referenced_pk_table_name) # rest) c =
     (if referenced_pk_table_name = table_name then
        (case execute flt (UpdateFkRemap fk_table fk_column canonical_id duplicate_ids_to_remove) c of
           Inr c' \<Rightarrow> remap_loop flt canonical_id duplicate_ids_to_remove table_name rest c'
         | Inl e \<Rightarrow>
             if tolerated e
             then remap_loop flt canonical_id duplicate_ids_to_remove table_name rest c
             else Inl e)
      else remap_loop flt canonical_id duplicate_ids_to_remove table_name rest c)"

subsection \<open>The per-table metadata\<close>

record meta =
  valid_map :: "(string \<times> string) list"
  original_valid_set :: "string list"
  threshold :: nat

definition meta_of :: "string list \<Rightarrow> meta" where
  "meta_of names =
     \<lparr>valid_map = valid_map_of names, original_valid_set = original_valid_set_of names,
      threshold = 2\<rparr>"

definition tables_meta :: "string list \<Rightarrow> string list \<Rightarrow> string list \<Rightarrow> (table \<times> meta) list" where
  "tables_meta raw_valid_pokemon_names_api raw_valid_type_names_api raw_valid_ability_names_api =
     [(Pokemon, meta_of raw_valid_pokemon_names_api),
      (Types, meta_of raw_valid_type_names_api),
      (Abilities, meta_of raw_valid_ability_names_api),
      (Trainers, meta_of raw_valid_trainer_names_list)]"

subsection \<open>Step 2 of the source: junk removal and correction\<close>

fun collect :: "(string \<times> string) list \<Rightarrow> nat \<Rightarrow> (int \<times> string option) list
    \<Rightarrow> (int \<times> string \<times> string option) list \<times> (int \<times> string option) list
    \<Rightarrow> (int \<times> string \<times> string option) list \<times> (int \<times> string option) list" where
  \<comment> \<open>the loop over \<open>rows_to_process\<close>, on the pair \<open>(updates, deletions_from_step2)\<close>\<close>
  "collect vmap thr [] (updates, deletions_from_step2) = (updates, deletions_from_step2)"
| "collect vmap thr ((row_id, current_name_db) # rest) (updates, deletions_from_step2) =
     (case current_name_db of
        None \<Rightarrow> collect vmap thr rest (updates, deletions_from_step2 @ [(row_id, current_name_db)])
      | Some s \<Rightarrow>
          if is_junk (Some s)
          then collect vmap thr rest (updates, deletions_from_step2 @ [(row_id, current_name_db)])
          else (let proposed_new_name = propose vmap thr s in
                if proposed_new_name \<noteq> s
                then collect vmap thr rest
                       (updates @ [(row_id, proposed_new_name, current_name_db)],
                        deletions_from_step2)
                else collect vmap thr rest (updates, deletions_from_step2)))"

fun delete_loop :: "faults \<Rightarrow> table \<Rightarrow> (int \<times> string option) list \<Rightarrow> cursor
    \<Rightarrow> sqlite_error + cursor" where
  \<comment> \<open>the loops over \<open>deletions_from_step2\<close> and over \<open>ids_to_delete_step3\<close>: the same body\<close>
  "delete_loop flt table_name [] c = Inr c"
| "delete_loop flt table_name ((row_id_to_delete, original_name_for_print) # rest) c =
     (case nullify_fks_referencing_id flt row_id_to_delete table_name c of
        Inl e \<Rightarrow> Inl e
      | Inr c1 \<Rightarrow>
          (case execute flt (DeleteWhereId table_name row_id_to_delete) c1 of
             Inl e \<Rightarrow> Inl e
           | Inr c2 \<Rightarrow> delete_loop flt table_name rest c2))"

fun update_loop :: "faults \<Rightarrow> table \<Rightarrow> (int \<times> string \<times> string option) list \<Rightarrow> cursor
    \<Rightarrow> sqlite_error + cursor" where
  "update_loop flt table_name [] c = Inr c"
| "update_loop flt table_name ((row_id, new_name, original_name_for_print) # rest) c =
     (case execute flt (SelectNameWhereId table_name row_id) c of
        Inl e \<Rightarrow> Inl e
      | Inr c1 \<Rightarrow>
          (case select_name_where_id table_name row_id (store c1) of
             None \<Rightarrow> update_loop flt table_name rest c1
           | Some current_db_name_after_updates \<Rightarrow>
               if current_db_name_after_updates \<noteq> Some new_name then
                 (case execute flt (UpdateNameWhereId table_name new_name row_id) c1 of
                    Inl e \<Rightarrow> Inl e
                  | Inr c2 \<Rightarrow> update_loop flt table_name rest c2)
               else update_loop flt table_name rest c1))"

definition correct_table :: "faults \<Rightarrow> table \<Rightarrow> meta \<Rightarrow> cursor \<Rightarrow> sqlite_error + cursor" where
  "correct_table flt table_name m c =
     (case execute flt (SelectIdName table_name) c of
        Inl e \<Rightarrow> Inl e
      | Inr c1 \<Rightarrow>
          (let rows_to_process = select_id_name table_name (store c1);
               (updates, deletions_from_step2) =
                  collect (valid_map m) (threshold m) rows_to_process ([], [])
           in case delete_loop flt table_name deletions_from_step2 c1 of
                Inl e \<Rightarrow> Inl e
              | Inr c2 \<Rightarrow> update_loop flt table_name updates c2))"

fun step2 :: "faults \<Rightarrow> (table \<times> meta) list \<Rightarrow> cursor \<Rightarrow> sqlite_error + cursor" where
  "step2 flt [] c = Inr c"
| "step2 flt ((table_name, m) # rest) c =
     (case correct_table flt table_name m c of Inl e \<Rightarrow> Inl e | Inr c' \<Rightarrow> step2 flt rest c')"

subsection \<open>Step 3 of the source: removal of unvalidated names\<close>

definition not_in_valid_set :: "string list \<Rightarrow> string option \<Rightarrow> bool" where
  \<comment> \<open>\<open>item_name not in original_valid_set\<close>; \<open>None\<close> is in no set of strings\<close>
  "not_in_valid_set vset item_name =
     (case item_name of None \<Rightarrow> True | Some n \<Rightarrow> n \<notin> set vset)"

definition remove_unvalidated :: "faults \<Rightarrow> table \<Rightarrow> meta \<Rightarrow> cursor \<Rightarrow> sqlite_error + cursor" where
  "remove_unvalidated flt table_name m c =
     (case execute flt (SelectIdName table_name) c of
        Inl e \<Rightarrow> Inl e
      | Inr c1 \<Rightarrow>
          (let items_to_check = select_id_name table_name (store c1);
               ids_to_delete_step3 =
                  filter (\<lambda>(item_id, item_name). not_in_valid_set (original_valid_set m) item_name)
                    items_to_check
           in delete_loop flt table_name ids_to_delete_step3 c1))"

fun step3 :: "faults \<Rightarrow> (table \<times> meta) list \<Rightarrow> cursor \<Rightarrow> sqlite_error + cursor" where
  "step3 flt [] c = Inr c"
| "step3 flt ((table_name, m) # rest) c =
     (case remove_unvalidated flt table_name m c of
        Inl e \<Rightarrow> Inl e
      | Inr c' \<Rightarrow> step3 flt rest c')"

subsection \<open>Step 4 of the source: deduplication\<close>

fun dedupe_groups :: "faults \<Rightarrow> table \<Rightarrow> (string option \<times> int \<times> int list) list \<Rightarrow> cursor
    \<Rightarrow> sqlite_error + cursor" where
  "dedupe_groups flt table_name [] c = Inr c"
| "dedupe_groups flt table_name ((original_name, canonical_id, duplicate_ids) # rest) c =
     (let duplicate_ids_to_remove = filter (\<lambda>x. x \<noteq> canonical_id) duplicate_ids in
      if duplicate_ids_to_remove = [] then dedupe_groups flt table_name rest c
      else
        (case remap_loop flt canonical_id duplicate_ids_to_remove table_name fk_relationships c of
           Inl e \<Rightarrow> Inl e
         | Inr c1 \<Rightarrow>
             (case execute flt (DeleteWhereIdIn table_name duplicate_ids_to_remove) c1 of
                Inl e \<Rightarrow> Inl e
              | Inr c2 \<Rightarrow> dedupe_groups flt table_name rest c2)))"

definition dedupe_table :: "faults \<Rightarrow> table \<Rightarrow> cursor \<Rightarrow> sqlite_error + cursor" where
  "dedupe_table flt table_name c =
     (case execute flt (SelectDuplicates table_name) c of
        Inl e \<Rightarrow> Inl e
      | Inr c1 \<Rightarrow> dedupe_groups flt table_name (select_duplicates table_name (store c1)) c1)"

fun step4 :: "faults \<Rightarrow> table list \<Rightarrow> cursor \<Rightarrow> sqlite_error + cursor" where
  "step4 flt [] c = Inr c"
| "step4 flt (table_name # rest) c =
     (case dedupe_table flt table_name c of Inl e \<Rightarrow> Inl e | Inr c' \<Rightarrow> step4 flt rest c')"

subsection \<open>The entry point\<close>

text \<open>
  \<open>clean_database\<close> returns \<open>None\<close> to its caller on every path of its own: after the
  commit, and after the handler of \<open>sqlite3.Error\<close> has printed the error and rolled
  back. An exception of another class leaves the function through the handler
  untouched. Of the printed lines, the model keeps the fetch warnings and the error
  line of the handler.
\<close>

datatype outcome =
    NotStarted
  | Committed db "stmt list" "message list"
  | RolledBack db "message list"
  | Propagated py_exception

definition steps :: "faults \<Rightarrow> (table \<times> meta) list \<Rightarrow> cursor \<Rightarrow> sqlite_error + cursor" where
  "steps flt tm c =
     (case step2 flt tm c of
        Inl e \<Rightarrow> Inl e
      | Inr c2 \<Rightarrow>
          (case step3 flt tm c2 of
             Inl e \<Rightarrow> Inl e
           | Inr c3 \<Rightarrow> step4 flt (map fst tm) c3))"

definition fetch_vocabularies :: "(string \<Rightarrow> response list)
    \<Rightarrow> (((table \<times> meta) list \<times> message list) fetched) option" where
  "fetch_vocabularies net =
     (case fetch_all_pokeapi_resources net ''pokemon'' of
        None \<Rightarrow> None
      | Some (Raised x) \<Rightarrow> Some (Raised x)
      | Some (Names (raw_valid_pokemon_names_api, w1)) \<Rightarrow>
     (case fetch_all_pokeapi_resources net ''type'' of
        None \<Rightarrow> None
      | Some (Raised x) \<Rightarrow> Some (Raised x)
      | Some (Names (raw_valid_type_names_api, w2)) \<Rightarrow>
     (case fetch_all_pokeapi_resources net ''ability'' of
        None \<Rightarrow> None
      | Some (Raised x) \<Rightarrow> Some (Raised x)
      | Some (Names (raw_valid_ability_names_api, w3)) \<Rightarrow>
          Some (Names (tables_meta raw_valid_pokemon_names_api raw_valid_type_names_api
                         raw_valid_ability_names_api, w1 @ w2 @ w3)))))"

definition clean_database :: "faults \<Rightarrow> (string \<Rightarrow> response list) \<Rightarrow> db option
    \<Rightarrow> outcome option" where
  "clean_database flt net conn =
     (case conn of
        None \<Rightarrow> Some NotStarted
      | Some d \<Rightarrow>
          (case execute flt PragmaForeignKeysOn \<lparr>store = d, trace = []\<rparr> of
             Inl e \<Rightarrow> Some (RolledBack d [CleaningError e])
           | Inr c0 \<Rightarrow>
               (case fetch_vocabularies net of
                  None \<Rightarrow> None
                | Some (Raised x) \<Rightarrow> Some (Propagated x)
                | Some (Names (tm, warnings)) \<Rightarrow>
                    (case steps flt tm c0 of
                       Inl e \<Rightarrow> Some (RolledBack d (warnings @ [CleaningError e]))
                     | Inr c \<Rightarrow>
                         (case execute flt Commit c of
                            Inl e \<Rightarrow> Some (RolledBack d (warnings @ [CleaningError e]))
                          | Inr c' \<Rightarrow> Some (Committed (store c') (trace c') warnings))))))"

section \<open>Notions used to state the properties\<close>


definition ids_of :: "table \<Rightarrow> db \<Rightarrow> int list" where
  "ids_of t d = map r_id (rows_of t d)"

definition fk_vals :: "table \<Rightarrow> column \<Rightarrow> db \<Rightarrow> int set" where
  \<comment> \<open>the values, other than \<open>NULL\<close>, in a column of a table\<close>
  "fk_vals ft fc d = {v. \<exists>r\<in>set (rows_of ft d). col fc r = Some v}"

definition removed_ids :: "(string option \<times> int \<times> int list) list \<Rightarrow> int list" where
  "removed_ids gs = concat (map (\<lambda>(n, canonical_id, ids). filter (\<lambda>x. x \<noteq> canonical_id) ids) gs)"

definition group_ids :: "table \<Rightarrow> db \<Rightarrow> string option \<Rightarrow> int list" where
  "group_ids t d k = map r_id (filter (\<lambda>r. lower_name r = k) (rows_of t d))"

definition canonical_id_of :: "table \<Rightarrow> db \<Rightarrow> string option \<Rightarrow> int" where
  "canonical_id_of t d k = Min (set (group_ids t d k))"

definition schema_conforms :: "faults \<Rightarrow> bool" where
  "schema_conforms flt = (\<forall>q d e. flt q d = Some e \<longrightarrow> \<not> tolerated e)"

definition replay :: "stmt list \<Rightarrow> db \<Rightarrow> db" where
  "replay qs d = fold apply_stmt qs d"

fun no_fault :: "faults \<Rightarrow> stmt list \<Rightarrow> db \<Rightarrow> bool" where
  "no_fault flt [] d = True"
| "no_fault flt (q # qs) d = (flt q d = None \<and> no_fault flt qs (apply_stmt q d))"

definition runs :: "faults \<Rightarrow> cursor \<Rightarrow> stmt list \<Rightarrow> cursor \<Rightarrow> bool" where
  "runs flt c qs c' =
     (trace c' = trace c @ qs \<and> store c' = replay qs (store c) \<and> no_fault flt qs (store c))"

definition cascade_null :: "int \<Rightarrow> table \<Rightarrow> stmt list" where
  "cascade_null i t =
     map (\<lambda>(ft, fc, rt). UpdateFkNull ft fc i) (filter (\<lambda>(ft, fc, rt). rt = t) fk_relationships)"

definition cascade_remap :: "int \<Rightarrow> int list \<Rightarrow> table \<Rightarrow> stmt list" where
  "cascade_remap canon dups t =
     map (\<lambda>(ft, fc, rt). UpdateFkRemap ft fc canon dups)
       (filter (\<lambda>(ft, fc, rt). rt = t) fk_relationships)"

fun cascaded :: "stmt list \<Rightarrow> stmt \<Rightarrow> bool" where
  "cascaded pre (DeleteWhereId t i) = suffix (cascade_null i t) pre"
| "cascaded pre (DeleteWhereIdIn t ids) =
     (\<exists>canon. suffix (cascade_remap canon ids t) pre \<and> (\<forall>x\<in>set ids. canon < x))"
| "cascaded pre PragmaForeignKeysOn = True"
| "cascaded pre (SelectIdName t) = True"
| "cascaded pre (SelectNameWhereId t i) = True"
| "cascaded pre (UpdateNameWhereId t n i) = True"
| "cascaded pre (UpdateFkNull ft fc i) = True"
| "cascaded pre (SelectDuplicates t) = True"
| "cascaded pre (UpdateFkRemap ft fc new olds) = True"
| "cascaded pre Commit = True"

fun guarded_from :: "stmt list \<Rightarrow> stmt list \<Rightarrow> bool" where
  "guarded_from pre [] = True"
| "guarded_from pre (q # rest) = (cascaded pre q \<and> guarded_from (pre @ [q]) rest)"

definition guarded :: "stmt list \<Rightarrow> bool" where
  "guarded tr = guarded_from [] tr"

definition self_guarded :: "stmt list \<Rightarrow> bool" where
  "self_guarded qs = (\<forall>pre. guarded_from pre qs)"

fun is_delete :: "stmt \<Rightarrow> bool" where
  "is_delete (DeleteWhereId t i) = True"
| "is_delete (DeleteWhereIdIn t ids) = True"
| "is_delete q = False"

definition unique_ids :: "db \<Rightarrow> bool" where
  "unique_ids d = list_all (\<lambda>t. distinct (ids_of t d)) [Pokemon, Types, Abilities, Trainers]"

definition remap_value :: "int \<Rightarrow> int list \<Rightarrow> int option \<Rightarrow> int option" where
  "remap_value canon dups v =
     (case v of None \<Rightarrow> None | Some x \<Rightarrow> if x \<in> set dups then Some canon else Some x)"

fun remap_values :: "(string option \<times> int \<times> int list) list \<Rightarrow> int option \<Rightarrow> int option" where
  "remap_values [] v = v"
| "remap_values ((n, canon, ids) # gs) v =
     remap_values gs (remap_value canon (filter (\<lambda>x. x \<noteq> canon) ids) v)"

definition canonical_ref :: "table \<Rightarrow> db \<Rightarrow> int \<Rightarrow> int" where
  "canonical_ref t d x =
     (case filter (\<lambda>r. r_id r = x) (rows_of t d) of
        [] \<Rightarrow> x
      | r # _ \<Rightarrow> canonical_id_of t d (lower_name r))"

definition group_of :: "table \<Rightarrow> db \<Rightarrow> string option \<Rightarrow> (string option \<times> int \<times> int list) list" where
  "group_of t d k =
     (let grp = filter (\<lambda>r. lower_name r = k) (rows_of t d);
          canonical_id = Min (set (map r_id grp))
      in if length grp > 1
         then [(r_name (hd (filter (\<lambda>r. r_id r = canonical_id) grp)), canonical_id, map r_id grp)]
         else [])"

definition category_endpoints :: "(string \<times> table) list" where
  \<comment> \<open>the endpoint whose names make the registry entry of a table; the fourth table is
      checked against the static list of trainers\<close>
  "category_endpoints = [(''pokemon'', Pokemon), (''type'', Types), (''ability'', Abilities)]"

fun is_cascade :: "stmt \<Rightarrow> bool" where
  "is_cascade (UpdateFkNull ft fc i) = True"
| "is_cascade (UpdateFkRemap ft fc new olds) = True"
| "is_cascade q = False"

definition tolerated_only :: "faults \<Rightarrow> faults" where
  \<comment> \<open>the errors of a storage layer that the code swallows: a missing column or table,
      raised by a cascade statement\<close>
  "tolerated_only flt q d =
     (case flt q d of
        None \<Rightarrow> None
      | Some e \<Rightarrow> if is_cascade q \<and> tolerated e then Some e else None)"

fun first_fault :: "faults \<Rightarrow> stmt list \<Rightarrow> db \<Rightarrow> sqlite_error option" where
  \<comment> \<open>the first error that the storage layer raises along a list of statements\<close>
  "first_fault flt [] d = None"
| "first_fault flt (q # qs) d =
     (case flt q d of Some e \<Rightarrow> Some e | None \<Rightarrow> first_fault flt qs (apply_stmt q d))"


definition references_exist :: "db \<Rightarrow> bool" where
  \<comment> \<open>every value other than \<open>NULL\<close> in a column of the edge list is the id of a row of
      the referenced table\<close>
  "references_exist d =
     list_all (\<lambda>(ft, fc, rt).
        list_all (\<lambda>r. case col fc r of None \<Rightarrow> True | Some v \<Rightarrow> v \<in> set (ids_of rt d))
          (rows_of ft d))
       fk_relationships"

section \<open>Sample data for the closed instances\<close>

definition named_row :: "int \<Rightarrow> string \<Rightarrow> row" where
  "named_row i n = \<lparr>r_id = i, r_name = Some n, r_type1_id = None, r_type2_id = None,
                   r_pokemon_id = None, r_trainer_id = None, r_ability_id = None\<rparr>"

definition link_row :: "int option \<Rightarrow> int option \<Rightarrow> int option \<Rightarrow> row" where
  "link_row p t a = \<lparr>r_id = 0, r_name = None, r_type1_id = None, r_type2_id = None,
                   r_pokemon_id = p, r_trainer_id = t, r_ability_id = a\<rparr>"

definition trainers_sample :: db where
  "trainers_sample =
     \<lparr>t_pokemon = [], t_types = [], t_abilities = [],
      t_trainers = [named_row 1 ''Misty'', named_row 2 ''---'', named_row 3 ''___''],
      t_trainer_pokemon_abilities = [link_row None (Some 2) None]\<rparr>"

definition sample_db :: db where
  "sample_db =
     \<lparr>t_pokemon = [(named_row 1 ''pikachu'')\<lparr>r_type1_id := Some 1\<rparr>,
                   (named_row 2 ''Pikuchu'')\<lparr>r_type1_id := Some 2\<rparr>,
                   (named_row 3 ''---'')\<lparr>r_type1_id := Some 3\<rparr>,
                   named_row 4 ''Mewtwo''],
      t_types = [named_row 1 ''electric'', named_row 2 ''ELECTRIC'', named_row 3 ''gras''],
      t_abilities = [named_row 1 ''static''],
      t_trainers = [named_row 1 ''ash ketchum'', named_row 2 ''Misty'', named_row 3 ''___''],
      t_trainer_pokemon_abilities =
        [link_row (Some 2) (Some 3) (Some 1), link_row (Some 3) (Some 1) (Some 1)]\<rparr>"

definition sample_net :: "string \<Rightarrow> response list" where
  "sample_net e =
     (if e = ''pokemon''
      then [Page [''pikachu'', ''mr-mime''] (Some ''page2''), Page [''mewtwo'', ''pikachu''] None]
      else if e = ''type'' then [Page [''electric'', ''grass''] None]
      else [RequestException])"

definition sample_cleaned :: db where
  "sample_cleaned =
     \<lparr>t_pokemon = [(named_row 1 ''Pikachu'')\<lparr>r_type1_id := Some 1\<rparr>, named_row 4 ''Mewtwo''],
      t_types = [named_row 1 ''Electric'', named_row 3 ''Grass''],
      t_abilities = [],
      t_trainers = [named_row 1 ''Ash Ketchum'', named_row 2 ''Misty''],
      t_trainer_pokemon_abilities =
        [link_row (Some 1) None None, link_row None (Some 1) None]\<rparr>"

definition sample_trace :: "stmt list" where
  "sample_trace =
    [PragmaForeignKeysOn, SelectIdName Pokemon,
     UpdateFkNull Trainer_pokemon_abilities Pokemon_id 3,
     DeleteWhereId Pokemon 3, SelectNameWhereId Pokemon 1,
     UpdateNameWhereId Pokemon ''Pikachu'' 1, SelectNameWhereId Pokemon 2,
     UpdateNameWhereId Pokemon ''Pikachu'' 2, SelectIdName Types,
     SelectNameWhereId Types 1, UpdateNameWhereId Types ''Electric'' 1,
     SelectNameWhereId Types 2, UpdateNameWhereId Types ''Electric'' 2,
     SelectNameWhereId Types 3, UpdateNameWhereId Types ''Grass'' 3,
     SelectIdName Abilities, SelectNameWhereId Abilities 1,
     UpdateNameWhereId Abilities ''Static'' 1, SelectIdName Trainers,
     SelectNameWhereId Trainers 1,
     UpdateNameWhereId Trainers ''Ash Ketchum'' 1, SelectIdName Pokemon,
     SelectIdName Types, SelectIdName Abilities,
     UpdateFkNull Trainer_pokemon_abilities Ability_id 1,
     DeleteWhereId Abilities 1, SelectIdName Trainers,
     UpdateFkNull Trainer_pokemon_abilities Trainer_id 3,
     DeleteWhereId Trainers 3, SelectDuplicates Pokemon,
     UpdateFkRemap Trainer_pokemon_abilities Pokemon_id 1 [2],
     DeleteWhereIdIn Pokemon [2], SelectDuplicates Types,
     UpdateFkRemap Pokemon Type1_id 1 [2],
     UpdateFkRemap Pokemon Type2_id 1 [2], DeleteWhereIdIn Types [2],
     SelectDuplicates Abilities, SelectDuplicates Trainers, Commit]"

definition no_faults :: faults where
  "no_faults q d = None"


definition dedup_sample :: db where
  "dedup_sample =
     \<lparr>t_pokemon = [(named_row 1 ''Pikachu'')\<lparr>r_type1_id := Some 2, r_type2_id := Some 1\<rparr>,
                   (named_row 4 ''Bulbasaur'')\<lparr>r_type1_id := Some 3\<rparr>],
      t_types = [named_row 1 ''Electric'', named_row 2 ''electric'', named_row 3 ''Grass''],
      t_abilities = [],
      t_trainers = [],
      t_trainer_pokemon_abilities = []\<rparr>"

definition dedup_sample_after :: db where
  "dedup_sample_after =
     \<lparr>t_pokemon = [(named_row 1 ''Pikachu'')\<lparr>r_type1_id := Some 1, r_type2_id := Some 1\<rparr>,
                   (named_row 4 ''Bulbasaur'')\<lparr>r_type1_id := Some 3\<rparr>],
      t_types = [named_row 1 ''Electric'', named_row 3 ''Grass''],
      t_abilities = [],
      t_trainers = [],
      t_trainer_pokemon_abilities = []\<rparr>"


definition dangling_sample :: db where
  "dangling_sample =
     \<lparr>t_pokemon = [(named_row 1 ''Pikachu'')\<lparr>r_type1_id := Some 9\<rparr>],
      t_types = [named_row 1 ''Electric''],
      t_abilities = [],
      t_trainers = [],
      t_trainer_pokemon_abilities = []\<rparr>"

section \<open>Properties of the text helpers\<close>

lemma split_not_Nil [simp]: "split sep s \<noteq> []"
  by (induction s) (auto split: list.splits)

lemma capitalize_simps [simp]:
  "capitalize [] = []" "capitalize (c # cs) = to_upper c # lower cs"
  by (simp_all add: capitalize_def)

lemma lower_simps [simp]: "lower [] = []" "lower (c # cs) = to_lower c # lower cs"
  by (simp_all add: lower_def)

lemma join_capitalize_split:
  "CHR ''-'' \<notin> set s \<Longrightarrow>
   join '' '' (map capitalize (split CHR '' '' s)) = title_scan True s
   \<and> join '' '' (lower (hd (split CHR '' '' s)) # map capitalize (tl (split CHR '' '' s)))
        = title_scan False s"
proof (induction s)
  case Nil
  then show ?case by simp
next
  case (Cons c cs)
  then obtain w ws where sp: "split CHR '' '' cs = w # ws"
    by (cases "split CHR '' '' cs") auto
  from Cons sp have ih1: "join '' '' (capitalize w # map capitalize ws) = title_scan True cs"
    and ih2: "join '' '' (lower w # map capitalize ws) = title_scan False cs"
    by simp_all
  show ?case
  proof (cases "c = CHR '' ''")
    case True
    with ih1 sp show ?thesis by simp
  next
    case False
    have "join '' '' ((x # lower w) # map capitalize ws)
            = x # join '' '' (lower w # map capitalize ws)" for x
      by (cases ws) simp_all
    moreover have "c \<noteq> CHR ''-''" using Cons.prems by auto
    ultimately show ?thesis using False ih2 sp by simp
  qed
qed

lemma title_scan_replace:
  "title_scan b (replace CHR ''-'' CHR '' '' s) = title_scan b s"
  by (induction s arbitrary: b) (auto simp: replace_def)

lemma to_title_case_scan: "to_title_case s = title_scan True s"
proof (cases "s = []")
  case True
  then show ?thesis by (simp add: to_title_case_def)
next
  case False
  have "CHR ''-'' \<notin> set (replace CHR ''-'' CHR '' '' s)"
    by (auto simp: replace_def)
  from join_capitalize_split [OF this] False show ?thesis
    by (simp add: to_title_case_def title_scan_replace)
qed

lemma length_title_scan: "length (title_scan b s) = length s"
  by (induction s arbitrary: b) auto

text \<open>Character classes under the case maps.\<close>

lemma of_char_lt_256: "(of_char c :: nat) < 256"
  by (metis of_char_mod_256 mod_less_divisor zero_less_numeral)

lemma to_lower_to_upper [simp]: "to_lower (to_upper c) = to_lower c"
  using of_char_lt_256 [of c]
  by (auto simp: to_lower_def to_upper_def is_upper_def is_lower_def)

lemma to_lower_idem [simp]: "to_lower (to_lower c) = to_lower c"
  using of_char_lt_256 [of c]
  by (auto simp: to_lower_def is_upper_def)

lemma is_alnum_to_upper [simp]: "is_alnum (to_upper c) = is_alnum c"
  using of_char_lt_256 [of c]
  by (auto simp: to_upper_def is_alnum_def is_upper_def is_lower_def is_digit_def)

lemma is_alnum_to_lower [simp]: "is_alnum (to_lower c) = is_alnum c"
  using of_char_lt_256 [of c]
  by (auto simp: to_lower_def is_alnum_def is_upper_def is_lower_def is_digit_def)

lemma is_word_to_upper [simp]: "is_word (to_upper c) = is_word c"
  using of_char_lt_256 [of c]
  by (auto simp: is_word_def to_upper_def is_alnum_def is_upper_def is_lower_def is_digit_def)

lemma is_word_to_lower [simp]: "is_word (to_lower c) = is_word c"
  using of_char_lt_256 [of c]
  by (auto simp: is_word_def to_lower_def is_alnum_def is_upper_def is_lower_def is_digit_def)

lemma not_alnum_sep [simp]: "\<not> is_alnum CHR ''-''" "\<not> is_alnum CHR '' ''"
  by (simp_all add: is_alnum_def is_upper_def is_lower_def is_digit_def)

lemma not_word_sep [simp]: "\<not> is_word CHR ''-''" "\<not> is_word CHR '' ''"
  by (simp_all add: is_word_def)

lemma is_word_underscore [simp]: "is_word CHR ''_''"
  by (simp add: is_word_def)

lemma is_space_not_word: "is_space c \<Longrightarrow> \<not> is_word c"
  by (auto simp: is_space_def is_word_def is_alnum_def is_upper_def is_lower_def is_digit_def)

lemma normalize_title_scan:
  "lower (filter is_alnum (title_scan b s)) = lower (filter is_alnum s)"
  by (induction s arbitrary: b) auto

lemma normalize_to_title_case [simp]:
  "normalize_string (to_title_case s) = normalize_string s"
proof (cases "s = []")
  case True
  then show ?thesis by (simp add: to_title_case_def)
next
  case False
  then have "title_scan True s \<noteq> []" by (cases s) auto
  with False show ?thesis
    by (simp add: normalize_string_def to_title_case_scan normalize_title_scan)
qed

lemma strip_Nil_iff: "strip s = [] \<longleftrightarrow> list_all is_space s"
proof -
  have a: "dropWhile is_space s = []" if "\<forall>x\<in>set (dropWhile is_space s). is_space x"
  proof (rule ccontr)
    assume ne: "dropWhile is_space s \<noteq> []"
    then have "\<not> is_space (hd (dropWhile is_space s))" by (rule hd_dropWhile)
    moreover have "hd (dropWhile is_space s) \<in> set (dropWhile is_space s)"
      using ne by simp
    ultimately show False using that by blast
  qed
  have "strip s = [] \<longleftrightarrow> (\<forall>x\<in>set (dropWhile is_space s). is_space x)"
    unfolding strip_def by (simp only: rev_is_Nil_conv dropWhile_eq_Nil_conv set_rev)
  also have "\<dots> \<longleftrightarrow> dropWhile is_space s = []"
  proof
    assume "\<forall>x\<in>set (dropWhile is_space s). is_space x"
    then show "dropWhile is_space s = []" by (rule a)
  next
    assume "dropWhile is_space s = []"
    then show "\<forall>x\<in>set (dropWhile is_space s). is_space x"
      by (simp only: list.set ball_empty)
  qed
  also have "\<dots> \<longleftrightarrow> list_all is_space s"
    by (simp only: dropWhile_eq_Nil_conv list_all_iff)
  finally show ?thesis .
qed

lemma is_junk_Some: "is_junk (Some s) \<longleftrightarrow> list_all (\<lambda>c. \<not> is_word c) s"
  by (auto simp: is_junk_def junk_pattern_global_match_def strip_Nil_iff list_all_iff
           dest: is_space_not_word)

lemma is_junk_title_scan:
  "list_all (\<lambda>c. \<not> is_word c) (title_scan b s) \<longleftrightarrow> list_all (\<lambda>c. \<not> is_word c) s"
  by (induction s arbitrary: b) auto

lemma is_junk_to_title_case [simp]: "is_junk (Some (to_title_case s)) = is_junk (Some s)"
  by (simp add: is_junk_Some to_title_case_scan is_junk_title_scan)

section \<open>The edit distance is the classic one\<close>

lemma edit_table_0_right: "edit_table a b i 0 = i"
  by (cases i) auto

lemma edit_table_sym: "edit_table a b i j = edit_table b a j i"
  by (induction a b i j rule: edit_table.induct)
     (simp_all add: edit_table_0_right min.commute eq_commute)

lemma edit_table_diag: "edit_table a a i i = 0"
  by (induction i) auto

lemma inner_loop_table:
  "j0 + length cs = length b \<Longrightarrow> cs = drop j0 b \<Longrightarrow>
   previous_row = map (edit_table a b i) [0..<length b + 1] \<Longrightarrow>
   current_row = map (edit_table a b (Suc i)) [0..<j0 + 1] \<Longrightarrow>
   inner_loop (a ! i) previous_row (List.enumerate j0 cs) current_row
     = map (edit_table a b (Suc i)) [0..<length b + 1]"
proof (induction cs arbitrary: j0 current_row)
  case Nil
  then show ?case by simp
next
  case (Cons c cs)
  have j0: "j0 < length b" using Cons.prems(1) by simp
  have c: "c = b ! j0" using Cons.prems(2) j0
    by (metis nth_via_drop)
  have cs: "cs = drop (Suc j0) b" using Cons.prems(2)
    by (metis drop_Suc drop_tl list.sel(3) tl_drop)
  let ?new = "min (min (previous_row ! (j0 + 1) + 1) (current_row ! j0 + 1))
                  (previous_row ! j0 + (if a ! i \<noteq> c then 1 else 0))"
  have p1: "previous_row ! (j0 + 1) = edit_table a b i (Suc j0)"
    using Cons.prems(3) j0 by (simp add: nth_append del: upt_Suc)
  have p0: "previous_row ! j0 = edit_table a b i j0"
    using Cons.prems(3) j0 by (simp add: nth_append del: upt_Suc)
  have c0: "current_row ! j0 = edit_table a b (Suc i) j0"
    using Cons.prems(4) by (simp add: nth_append del: upt_Suc)
  have new: "?new = edit_table a b (Suc i) (Suc j0)"
    using p1 p0 c0 c by auto
  have "current_row @ [?new] = map (edit_table a b (Suc i)) [0..<Suc j0 + 1]"
    using Cons.prems(4) new by simp
  from Cons.IH [OF _ cs Cons.prems(3) this] Cons.prems(1)
  show ?case by (simp add: Let_def)
qed

lemma outer_loop_table:
  "i0 + length cs = length a \<Longrightarrow> cs = drop i0 a \<Longrightarrow>
   previous_row = map (edit_table a b i0) [0..<length b + 1] \<Longrightarrow>
   outer_loop (List.enumerate i0 cs) b previous_row
     = map (edit_table a b (length a)) [0..<length b + 1]"
proof (induction cs arbitrary: i0 previous_row)
  case Nil
  then show ?case by simp
next
  case (Cons c cs)
  have i0: "i0 < length a" using Cons.prems(1) by simp
  have c: "c = a ! i0" using Cons.prems(2) i0
    by (metis nth_via_drop)
  have cs: "cs = drop (Suc i0) a" using Cons.prems(2)
    by (metis drop_Suc drop_tl list.sel(3) tl_drop)
  have "inner_loop (a ! i0) previous_row (List.enumerate 0 b) [i0 + 1]
          = map (edit_table a b (Suc i0)) [0..<length b + 1]"
    by (rule inner_loop_table [OF _ _ Cons.prems(3)]) simp_all
  from Cons.IH [OF _ cs this] Cons.prems(1) c
  show ?case by simp
qed

lemma levenshtein_distance_table:
  "levenshtein_distance s1 s2 = edit_table s1 s2 (length s1) (length s2)"
proof -
  have ge: "edit_table a b (length a) (length b) =
      (if length b = 0 then length a
       else last (outer_loop (List.enumerate 0 a) b [0..<length b + 1]))" for a b
  proof (cases "length b = 0")
    case True
    then show ?thesis by (simp add: edit_table_0_right)
  next
    case False
    have "outer_loop (List.enumerate 0 a) b [0..<length b + 1]
            = map (edit_table a b (length a)) [0..<length b + 1]"
      by (rule outer_loop_table) (simp_all add: map_idI)
    then show ?thesis using False by simp
  qed
  show ?thesis
  proof (cases "length s1 < length s2")
    case True
    then have "levenshtein_distance s1 s2 = levenshtein_distance s2 s1"
      by (simp add: levenshtein_distance.simps [of s1 s2])
    also have "\<dots> = edit_table s2 s1 (length s2) (length s1)"
      using True ge [of s2 s1] by (simp add: levenshtein_distance.simps [of s2 s1])
    finally show ?thesis by (simp add: edit_table_sym)
  next
    case False
    then show ?thesis using ge [of s1 s2]
      by (simp add: levenshtein_distance.simps [of s1 s2])
  qed
qed

text \<open>
  Claim C8. The edit distance computed by the single-row loop is the classic Levenshtein
  distance with unit costs: it equals the entry of the classic table for the two whole
  strings; it is 3 on kitten and sitting, 3 on the empty string and abc, 0 on same and
  same; it is symmetric, it is 0 between a string and itself, and it is the length of
  the string when the other one is empty.
\<close>

theorem levenshtein_distance_classic:
  "levenshtein_distance ''kitten'' ''sitting'' = 3
   \<and> levenshtein_distance [] ''abc'' = 3
   \<and> levenshtein_distance ''same'' ''same'' = 0
   \<and> levenshtein_distance a b = levenshtein_distance b a
   \<and> levenshtein_distance a a = 0
   \<and> levenshtein_distance [] s = length s
   \<and> levenshtein_distance a b = edit_table a b (length a) (length b)"
proof -
  have "levenshtein_distance ''kitten'' ''sitting'' = 3" by code_simp
  moreover have "levenshtein_distance [] ''abc'' = 3" by code_simp
  moreover have "levenshtein_distance ''same'' ''same'' = 0" by code_simp
  moreover have "levenshtein_distance a b = levenshtein_distance b a"
    by (simp add: levenshtein_distance_table edit_table_sym)
  moreover have "levenshtein_distance a a = 0"
    by (simp add: levenshtein_distance_table edit_table_diag)
  moreover have "levenshtein_distance [] s = length s"
    by (simp add: levenshtein_distance_table)
  ultimately show ?thesis by (simp add: levenshtein_distance_table)
qed

text \<open>
  Claim C9, as the specification words it: only the first letter of a token changes.
  The code calls \<open>str.capitalize\<close>, which also lower-cases the rest of the token, so
  the two differ on PIKACHU.
\<close>

theorem displayForm_spec_counterexample:
  "to_title_case ''PIKACHU'' = ''Pikachu'' \<and> displayForm_spec ''PIKACHU'' = ''PIKACHU''"
  by code_simp

text \<open>
  Claim C9, amended. The display form replaces hyphens with spaces, splits on spaces,
  upper-cases the first letter and lower-cases every other letter of each token, and
  rejoins the tokens with single spaces; the empty string and \<open>None\<close> are returned
  unchanged. Read in one pass: a hyphen or a space becomes a space, a character that
  starts a token is upper-cased, any other character is lower-cased, so the length
  is kept.
\<close>

theorem to_title_case_display_form:
  "to_title_case s =
     (if s = [] then []
      else join '' '' (map (\<lambda>w. case w of [] \<Rightarrow> [] | c # cs \<Rightarrow> to_upper c # map to_lower cs)
                         (split CHR '' '' (map (\<lambda>c. if c = CHR ''-'' then CHR '' '' else c) s))))
   \<and> to_title_case s = title_scan True s
   \<and> length (to_title_case s) = length s
   \<and> to_title_case_value None = None
   \<and> to_title_case_value (Some []) = Some []
   \<and> to_title_case_value (Some s) = Some (to_title_case s)"
proof -
  have c: "capitalize = (\<lambda>w. case w of [] \<Rightarrow> [] | c # cs \<Rightarrow> to_upper c # map to_lower cs)"
    unfolding capitalize_def lower_def ..
  have 1: "to_title_case s =
     (if s = [] then []
      else join '' '' (map (\<lambda>w. case w of [] \<Rightarrow> [] | c # cs \<Rightarrow> to_upper c # map to_lower cs)
                         (split CHR '' '' (map (\<lambda>c. if c = CHR ''-'' then CHR '' '' else c) s))))"
    unfolding to_title_case_def replace_def c by simp
  have 2: "to_title_case s = title_scan True s"
    by (rule to_title_case_scan)
  have 3: "length (to_title_case s) = length s"
    unfolding to_title_case_scan by (rule length_title_scan)
  have 4: "to_title_case_value None = None"
    by (simp add: to_title_case_value_def)
  have 5: "to_title_case_value (Some []) = Some []"
    by (simp add: to_title_case_value_def to_title_case_def)
  have 6: "to_title_case_value (Some s) = Some (to_title_case s)"
    by (simp add: to_title_case_value_def)
  from 1 2 3 4 5 6 show ?thesis by blast
qed


section \<open>The matcher\<close>




section \<open>Statements and the store\<close>

lemma rows_of_set_rows [simp]:
  "rows_of t (set_rows t' rs d) = (if t = t' then rs else rows_of t d)"
  by (cases t; cases t') simp_all

lemma col_set_col [simp]: "col c (set_col c' v r) = (if c = c' then v else col c r)"
  by (cases c; cases c') simp_all

lemma r_id_set_col [simp]: "r_id (set_col c v r) = r_id r"
  by (cases c) simp_all

lemma r_name_set_col [simp]: "r_name (set_col c v r) = r_name r"
  by (cases c) simp_all

lemma execute_Inr:
  "execute flt q c = Inr c' \<Longrightarrow>
   store c' = apply_stmt q (store c) \<and> trace c' = trace c @ [q] \<and> flt q (store c) = None"
  by (auto simp: execute_def split: option.splits)

lemma execute_Inl: "execute flt q c = Inl e \<Longrightarrow> flt q (store c) = Some e"
  by (auto simp: execute_def split: option.splits)

text \<open>Effect of one statement on the id and name columns of a table.\<close>

lemma select_id_name_apply:
  "select_id_name t (apply_stmt q d) =
     (case q of
        DeleteWhereId t' i \<Rightarrow>
          if t = t' then filter (\<lambda>(j, n). j \<noteq> i) (select_id_name t d) else select_id_name t d
      | DeleteWhereIdIn t' ids \<Rightarrow>
          if t = t' then filter (\<lambda>(j, n). j \<notin> set ids) (select_id_name t d)
          else select_id_name t d
      | UpdateNameWhereId t' n i \<Rightarrow>
          if t = t' then map (\<lambda>(j, m). if j = i then (j, Some n) else (j, m)) (select_id_name t d)
          else select_id_name t d
      | _ \<Rightarrow> select_id_name t d)"
  by (cases q) (auto simp: select_id_name_def filter_map comp_def split: option.splits)

declare apply_stmt.simps [simp del]

lemma nullify_loop_select_id_name:
  "nullify_loop flt i t es c = Inr c' \<Longrightarrow>
   select_id_name t' (store c') = select_id_name t' (store c)"
proof (induction es arbitrary: c)
  case Nil
  then show ?case by simp
next
  case (Cons e es)
  obtain ft fc rt where e: "e = (ft, fc, rt)" by (cases e)
  show ?case
  proof (cases "rt = t")
    case False
    with Cons e show ?thesis by simp
  next
    case True
    show ?thesis
    proof (cases "execute flt (UpdateFkNull ft fc i) c")
      case (Inl err)
      with Cons e True show ?thesis by (simp split: if_splits)
    next
      case (Inr c1)
      with Cons.prems e True have "nullify_loop flt i t es c1 = Inr c'" by simp
      from Cons.IH [OF this] execute_Inr [OF Inr] show ?thesis
        by (simp add: select_id_name_apply)
    qed
  qed
qed

lemma remap_loop_select_id_name:
  "remap_loop flt canon dups t es c = Inr c' \<Longrightarrow>
   select_id_name t' (store c') = select_id_name t' (store c)"
proof (induction es arbitrary: c)
  case Nil
  then show ?case by simp
next
  case (Cons e es)
  obtain ft fc rt where e: "e = (ft, fc, rt)" by (cases e)
  show ?case
  proof (cases "rt = t")
    case False
    with Cons e show ?thesis by simp
  next
    case True
    show ?thesis
    proof (cases "execute flt (UpdateFkRemap ft fc canon dups) c")
      case (Inl err)
      with Cons e True show ?thesis by (simp split: if_splits)
    next
      case (Inr c1)
      with Cons.prems e True have "remap_loop flt canon dups t es c1 = Inr c'" by simp
      from Cons.IH [OF this] execute_Inr [OF Inr] show ?thesis
        by (simp add: select_id_name_apply)
    qed
  qed
qed

lemma delete_loop_select_id_name:
  "delete_loop flt t dels c = Inr c' \<Longrightarrow>
   select_id_name t' (store c') =
     (if t' = t then filter (\<lambda>(j, n). j \<notin> fst ` set dels) (select_id_name t (store c))
      else select_id_name t' (store c))"
proof (induction dels arbitrary: c)
  case Nil
  then show ?case by simp
next
  case (Cons x dels)
  obtain i n where x: "x = (i, n)" by (cases x)
  from Cons.prems x obtain c1 c2 where
    n: "nullify_fks_referencing_id flt i t c = Inr c1"
    and d: "execute flt (DeleteWhereId t i) c1 = Inr c2"
    and r: "delete_loop flt t dels c2 = Inr c'"
    by (auto split: sum.splits)
  have 1: "select_id_name t' (store c1) = select_id_name t' (store c)"
    using n by (simp add: nullify_fks_referencing_id_def nullify_loop_select_id_name)
  have 2: "select_id_name t' (store c2) =
      (if t' = t then filter (\<lambda>(j, n). j \<noteq> i) (select_id_name t' (store c1))
       else select_id_name t' (store c1))"
    using execute_Inr [OF d] by (simp add: select_id_name_apply)
  from Cons.IH [OF r] 1 2 x show ?case
    by (auto simp: case_prod_unfold intro: filter_cong)
qed

lemma update_loop_other_table:
  "update_loop flt t ups c = Inr c' \<Longrightarrow> t' \<noteq> t \<Longrightarrow>
   select_id_name t' (store c') = select_id_name t' (store c)"
proof (induction ups arbitrary: c)
  case Nil
  then show ?case by simp
next
  case (Cons u ups)
  obtain i n orig where u: "u = (i, n, orig)" by (cases u)
  from Cons.prems(1) u obtain c1 where
    s: "execute flt (SelectNameWhereId t i) c = Inr c1"
    by (auto split: sum.splits)
  have 1: "select_id_name t' (store c1) = select_id_name t' (store c)"
    using execute_Inr [OF s] by (simp add: select_id_name_apply)
  from Cons.prems(1) u s consider
    (skip) "update_loop flt t ups c1 = Inr c'"
    | (upd) c2 where "execute flt (UpdateNameWhereId t n i) c1 = Inr c2"
        "update_loop flt t ups c2 = Inr c'"
    by (auto split: sum.splits option.splits if_splits)
  then show ?case
  proof cases
    case skip
    from Cons.IH [OF skip Cons.prems(2)] 1 show ?thesis by simp
  next
    case upd
    have "select_id_name t' (store c2) = select_id_name t' (store c1)"
      using execute_Inr [OF upd(1)] Cons.prems(2) by (simp add: select_id_name_apply)
    with Cons.IH [OF upd(2) Cons.prems(2)] 1 show ?thesis by simp
  qed
qed

lemma update_loop_ids:
  "update_loop flt t ups c = Inr c' \<Longrightarrow>
   map fst (select_id_name t' (store c')) = map fst (select_id_name t' (store c))"
proof (induction ups arbitrary: c)
  case Nil
  then show ?case by simp
next
  case (Cons u ups)
  obtain i n orig where u: "u = (i, n, orig)" by (cases u)
  from Cons.prems(1) u obtain c1 where
    s: "execute flt (SelectNameWhereId t i) c = Inr c1"
    by (auto split: sum.splits)
  have 1: "select_id_name t' (store c1) = select_id_name t' (store c)"
    using execute_Inr [OF s] by (simp add: select_id_name_apply)
  from Cons.prems(1) u s consider
    (skip) "update_loop flt t ups c1 = Inr c'"
    | (upd) c2 where "execute flt (UpdateNameWhereId t n i) c1 = Inr c2"
        "update_loop flt t ups c2 = Inr c'"
    by (auto split: sum.splits option.splits if_splits)
  then show ?case
  proof cases
    case skip
    from Cons.IH [OF skip] 1 show ?thesis by simp
  next
    case upd
    have "map fst (select_id_name t' (store c2)) = map fst (select_id_name t' (store c1))"
      using execute_Inr [OF upd(1)]
      by (simp add: select_id_name_apply case_prod_unfold comp_def)
    with Cons.IH [OF upd(2)] 1 show ?thesis by simp
  qed
qed

section \<open>The junk test of the correction pass\<close>

lemma collect_eq:
  "collect vmap thr rows (ups, dels) =
     (ups @ map (\<lambda>(i, n). (i, propose vmap thr (the n), n))
              (filter (\<lambda>(i, n). \<not> is_junk n \<and> propose vmap thr (the n) \<noteq> the n) rows),
      dels @ filter (\<lambda>(i, n). is_junk n) rows)"
proof (induction rows arbitrary: ups dels)
  case Nil
  then show ?case by simp
next
  case (Cons x rows)
  obtain i n where x: "x = (i, n)" by (cases x)
  show ?case
  proof (cases n)
    case None
    with x Cons show ?thesis by (simp add: is_junk_def)
  next
    case (Some s)
    with x Cons show ?thesis by (simp add: Let_def)
  qed
qed

lemma filter_ids_by_name:
  assumes "distinct (map fst rows)"
  shows "filter (\<lambda>(j, n). j \<notin> fst ` set (filter (\<lambda>(i, n). P n) rows)) rows
           = filter (\<lambda>(j, n). \<not> P n) rows"
proof (rule filter_cong [OF refl])
  fix x assume x: "x \<in> set rows"
  obtain j n where jn: "x = (j, n)" by (cases x)
  have "j \<in> fst ` set (filter (\<lambda>(i, n). P n) rows) \<longleftrightarrow> P n"
  proof
    assume "j \<in> fst ` set (filter (\<lambda>(i, n). P n) rows)"
    then obtain n' where n': "(j, n') \<in> set rows" "P n'" by auto
    from assms x jn n'(1) have "n' = n"
      by (meson eq_key_imp_eq_value)
    with n'(2) show "P n" by simp
  next
    assume "P n"
    with x jn show "j \<in> fst ` set (filter (\<lambda>(i, n). P n) rows)" by force
  qed
  with jn show "(case x of (j, n) \<Rightarrow> j \<notin> fst ` set (filter (\<lambda>(i, n). P n) rows))
                 = (case x of (j, n) \<Rightarrow> \<not> P n)"
    by simp
qed

lemma ids_of_select: "ids_of t d = map fst (select_id_name t d)"
  by (simp add: ids_of_def select_id_name_def comp_def)

lemma correct_table_ids:
  assumes "correct_table flt t m c = Inr c'" "distinct (ids_of t (store c))"
  shows "ids_of t (store c') =
           map fst (filter (\<lambda>(i, n). \<not> is_junk n) (select_id_name t (store c)))"
proof -
  let ?rows = "select_id_name t (store c)"
  from assms(1) obtain c1 where s: "execute flt (SelectIdName t) c = Inr c1"
    by (auto simp: correct_table_def split: sum.splits)
  have rows1: "select_id_name t (store c1) = ?rows"
    using execute_Inr [OF s] by (simp add: select_id_name_apply)
  obtain ups dels where cl: "collect (valid_map m) (threshold m) ?rows ([], []) = (ups, dels)"
    by (cases "collect (valid_map m) (threshold m) ?rows ([], [])")
  then have dels: "dels = filter (\<lambda>(i, n). is_junk n) ?rows"
    by (simp add: collect_eq)
  from assms(1) s rows1 cl obtain c2 where
    d: "delete_loop flt t dels c1 = Inr c2" and u: "update_loop flt t ups c2 = Inr c'"
    by (auto simp: correct_table_def split: sum.splits)
  have "select_id_name t (store c2) = filter (\<lambda>(j, n). j \<notin> fst ` set dels) ?rows"
    using delete_loop_select_id_name [OF d, of t] rows1 by simp
  also have "\<dots> = filter (\<lambda>(j, n). \<not> is_junk n) ?rows"
    unfolding dels using assms(2) by (intro filter_ids_by_name) (simp add: ids_of_select)
  finally have "map fst (select_id_name t (store c2))
      = map fst (filter (\<lambda>(j, n). \<not> is_junk n) ?rows)" by simp
  with update_loop_ids [OF u, of t] show ?thesis by (simp add: ids_of_select)
qed

lemma underscores_not_junk: "\<not> is_junk (Some (replicate (Suc k) CHR ''_''))"
  by (simp add: is_junk_Some)

text \<open>
  Claim C10. The junk test holds exactly for a name that is null, empty, made of
  whitespace only or made of non-word characters only, and the correction pass of a
  table with unique ids deletes exactly the rows whose name passes the test. The
  underscore is a word character, so a name made of underscores only is not junk and
  its row is still in the table after the pass.
\<close>

theorem junk_test_keeps_underscores:
  assumes "correct_table flt t m c = Inr c'" "distinct (ids_of t (store c))"
  shows "is_junk v =
           (case v of
              None \<Rightarrow> True
            | Some s \<Rightarrow> s = [] \<or> list_all is_space s \<or> list_all (\<lambda>c. \<not> is_word c) s)
    \<and> ids_of t (store c') =
           map fst (filter (\<lambda>(i, n). \<not> is_junk n) (select_id_name t (store c)))
    \<and> is_word CHR ''_''
    \<and> \<not> is_junk (Some (replicate (Suc k) CHR ''_''))
    \<and> ((i, Some (replicate (Suc k) CHR ''_'')) \<in> set (select_id_name t (store c))
           \<longrightarrow> i \<in> set (ids_of t (store c')))"
proof -
  have 1: "is_junk v =
           (case v of
              None \<Rightarrow> True
            | Some s \<Rightarrow> s = [] \<or> list_all is_space s \<or> list_all (\<lambda>c. \<not> is_word c) s)"
    by (auto simp: is_junk_def junk_pattern_global_match_def strip_Nil_iff split: option.splits)
  have ids: "ids_of t (store c') =
           map fst (filter (\<lambda>(i, n). \<not> is_junk n) (select_id_name t (store c)))"
    by (rule correct_table_ids [OF assms])
  have nj: "\<not> is_junk (Some (replicate (Suc k) CHR ''_''))"
    by (rule underscores_not_junk)
  have "i \<in> set (ids_of t (store c'))"
    if "(i, Some (replicate (Suc k) CHR ''_'')) \<in> set (select_id_name t (store c))"
    unfolding ids using that nj by force
  with 1 ids nj show ?thesis by simp
qed

text \<open>
  The pass on a trainers table holding Misty, a row of hyphens and a row of
  underscores: the row of hyphens goes, after the link to it is set to null; the row
  of underscores stays.
\<close>

theorem junk_test_keeps_underscores_witness:
  "correct_table (\<lambda>q d. None) Trainers (meta_of raw_valid_trainer_names_list)
       \<lparr>store = trainers_sample, trace = []\<rparr>
     = Inr \<lparr>store = trainers_sample
                 \<lparr>t_trainers := [named_row 1 ''Misty'', named_row 3 ''___''],
                  t_trainer_pokemon_abilities := [link_row None None None]\<rparr>,
              trace = [SelectIdName Trainers,
                       UpdateFkNull Trainer_pokemon_abilities Trainer_id 2,
                       DeleteWhereId Trainers 2]\<rparr>
   \<and> distinct (ids_of Trainers trainers_sample)
   \<and> (3, Some (replicate (Suc 2) CHR ''_'')) \<in> set (select_id_name Trainers trainers_sample)
   \<and> 3 \<in> set (ids_of Trainers (trainers_sample
                 \<lparr>t_trainers := [named_row 1 ''Misty'', named_row 3 ''___''],
                  t_trainer_pokemon_abilities := [link_row None None None]\<rparr>))
   \<and> is_junk (Some ''---'') \<and> \<not> is_junk (Some (replicate (Suc 2) CHR ''_''))"
proof -
  let ?c = "\<lparr>store = trainers_sample, trace = []\<rparr>"
  let ?c' = "\<lparr>store = trainers_sample
                 \<lparr>t_trainers := [named_row 1 ''Misty'', named_row 3 ''___''],
                  t_trainer_pokemon_abilities := [link_row None None None]\<rparr>,
              trace = [SelectIdName Trainers,
                       UpdateFkNull Trainer_pokemon_abilities Trainer_id 2,
                       DeleteWhereId Trainers 2]\<rparr>"
  have run: "correct_table (\<lambda>q d. None) Trainers (meta_of raw_valid_trainer_names_list) ?c
               = Inr ?c'"
    by code_simp
  have d: "distinct (ids_of Trainers (store ?c))" by code_simp
  have r: "(3, Some (replicate (Suc 2) CHR ''_'')) \<in> set (select_id_name Trainers (store ?c))"
    by code_simp
  have j: "is_junk (Some ''---'')" by code_simp
  note th = junk_test_keeps_underscores [OF run d, of "Some ''___''" 2 3]
  from th have a: "\<not> is_junk (Some (replicate (Suc 2) CHR ''_''))" by blast
  from th r have b: "3 \<in> set (ids_of Trainers (store ?c'))" by blast
  from b have b': "3 \<in> set (ids_of Trainers (trainers_sample
                 \<lparr>t_trainers := [named_row 1 ''Misty'', named_row 3 ''___''],
                  t_trainer_pokemon_abilities := [link_row None None None]\<rparr>))"
    by simp
  from r have r': "(3, Some (replicate (Suc 2) CHR ''_'')) \<in> set (select_id_name Trainers trainers_sample)"
    by simp
  from d have d': "distinct (ids_of Trainers trainers_sample)" by simp
  from run d' r' b' j a show ?thesis by blast
qed

section \<open>Rows and names through the steps\<close>

lemma subseq_set_mono:
  assumes "subseq xs ys"
  shows "set xs \<subseteq> set ys"
proof
  fix x assume "x \<in> set xs"
  with assms obtain y where "y \<in> set ys" "x = y" by (rule list_emb_set)
  then show "x \<in> set ys" by simp
qed

lemma subseq_distinct: "subseq xs ys \<Longrightarrow> distinct ys \<Longrightarrow> distinct xs"
proof (induction ys arbitrary: xs)
  case Nil
  then show ?case by (auto dest: list_emb_Nil2)
next
  case (Cons y ys)
  note IH = Cons.IH and sub = Cons.prems(1) and dist = Cons.prems(2)
  show ?case
  proof (cases xs)
    case Nil
    then show ?thesis by simp
  next
    case xs: (Cons x xs')
    show ?thesis
    proof (cases "x = y")
      case True
      with xs sub have s: "subseq xs' ys" by simp
      from dist have "distinct ys" "y \<notin> set ys" by simp_all
      with IH [OF s] subseq_set_mono [OF s] xs True show ?thesis by auto
    next
      case False
      with xs sub have "subseq xs ys" by simp
      with IH dist show ?thesis by simp
    qed
  qed
qed

declare fetch_loop.simps [simp del]

lemma fetch_loop_fails:
  "truthy url \<Longrightarrow> list_all (\<lambda>(ns, u). u \<noteq> []) ps \<Longrightarrow>
   fetch_loop e (map (\<lambda>(ns, u). Page ns (Some u)) ps @ RequestException # rest) url names
     = Some (Names ([], [FetchWarning e]))"
proof (induction ps arbitrary: url names)
  case Nil
  then show ?case by (simp add: fetch_loop.simps [of e "RequestException # rest"])
next
  case (Cons p ps)
  obtain ns u where p: "p = (ns, u)" by (cases p)
  with Cons.prems have "truthy (Some u)" "list_all (\<lambda>(ns, u). u \<noteq> []) ps" by simp_all
  from Cons.IH [OF this] Cons.prems(1) p show ?case
    by (simp add: fetch_loop.simps [of e "Page ns (Some u) # rs" for rs])
qed

lemma propose_empty [simp]: "propose [] thr s = to_title_case s"
  by (simp add: propose_def)

lemma correct_table_Inr:
  assumes "correct_table flt t m c = Inr c'"
  shows "\<exists>c1 c2 ups dels. execute flt (SelectIdName t) c = Inr c1
           \<and> collect (valid_map m) (threshold m) (select_id_name t (store c1)) ([], []) = (ups, dels)
           \<and> delete_loop flt t dels c1 = Inr c2 \<and> update_loop flt t ups c2 = Inr c'"
proof (cases "execute flt (SelectIdName t) c")
  case (Inl e)
  with assms show ?thesis by (simp add: correct_table_def)
next
  case (Inr c1)
  obtain ups dels where
    cl: "collect (valid_map m) (threshold m) (select_id_name t (store c1)) ([], []) = (ups, dels)"
    by (cases "collect (valid_map m) (threshold m) (select_id_name t (store c1)) ([], [])")
  show ?thesis
  proof (cases "delete_loop flt t dels c1")
    case (Inl e)
    with assms Inr cl show ?thesis by (simp add: correct_table_def)
  next
    case d: (Inr c2)
    with assms Inr cl have "update_loop flt t ups c2 = Inr c'"
      by (simp add: correct_table_def)
    with Inr cl d show ?thesis by blast
  qed
qed

lemma correct_table_other:
  assumes "correct_table flt t m c = Inr c'" "t' \<noteq> t"
  shows "select_id_name t' (store c') = select_id_name t' (store c)"
proof -
  from correct_table_Inr [OF assms(1)] obtain c1 ups dels c2 where
    s: "execute flt (SelectIdName t) c = Inr c1"
    and d: "delete_loop flt t dels c1 = Inr c2" and u: "update_loop flt t ups c2 = Inr c'"
    by blast
  have "select_id_name t' (store c1) = select_id_name t' (store c)"
    using execute_Inr [OF s] by (simp add: select_id_name_apply)
  with delete_loop_select_id_name [OF d, of t'] update_loop_other_table [OF u assms(2)] assms(2)
  show ?thesis by simp
qed

lemma correct_table_ids_subseq:
  assumes "correct_table flt t m c = Inr c'"
  shows "subseq (ids_of t' (store c')) (ids_of t' (store c))"
proof -
  from correct_table_Inr [OF assms(1)] obtain c1 ups dels c2 where
    s: "execute flt (SelectIdName t) c = Inr c1"
    and d: "delete_loop flt t dels c1 = Inr c2" and u: "update_loop flt t ups c2 = Inr c'"
    by blast
  have 1: "select_id_name t' (store c1) = select_id_name t' (store c)"
    using execute_Inr [OF s] by (simp add: select_id_name_apply)
  have "subseq (select_id_name t' (store c2)) (select_id_name t' (store c1))"
    using delete_loop_select_id_name [OF d, of t'] by simp
  then have "subseq (map fst (select_id_name t' (store c2))) (map fst (select_id_name t' (store c)))"
    unfolding 1 by (rule subseq_map)
  with update_loop_ids [OF u, of t'] show ?thesis by (simp add: ids_of_select)
qed

lemma step2_ids_subseq:
  "step2 flt tm c = Inr c' \<Longrightarrow> subseq (ids_of t' (store c')) (ids_of t' (store c))"
proof (induction tm arbitrary: c)
  case Nil
  then show ?case by simp
next
  case (Cons x tm)
  obtain t m where x: "x = (t, m)" by (cases x)
  with Cons.prems obtain c1 where a: "correct_table flt t m c = Inr c1"
    and b: "step2 flt tm c1 = Inr c'" by (auto split: sum.splits)
  from correct_table_ids_subseq [OF a] Cons.IH [OF b] show ?case
    by (rule subseq_order.trans [rotated])
qed

text \<open>Removal of the unvalidated names.\<close>

lemma remove_unvalidated_select_id_name:
  assumes "remove_unvalidated flt t m c = Inr c'"
  shows "select_id_name t' (store c') =
     (if t' = t
      then filter (\<lambda>(j, n). j \<notin> fst ` set (filter (\<lambda>(i, n).
                     not_in_valid_set (original_valid_set m) n) (select_id_name t (store c))))
             (select_id_name t (store c))
      else select_id_name t' (store c))"
proof -
  from assms obtain c1 where
    s: "execute flt (SelectIdName t) c = Inr c1"
    and d: "delete_loop flt t (filter (\<lambda>(i, n). not_in_valid_set (original_valid_set m) n)
              (select_id_name t (store c1))) c1 = Inr c'"
    by (auto simp: remove_unvalidated_def split: sum.splits)
  have 1: "select_id_name t'' (store c1) = select_id_name t'' (store c)" for t''
    using execute_Inr [OF s] by (simp add: select_id_name_apply)
  from delete_loop_select_id_name [OF d, of t'] show ?thesis by (simp add: 1)
qed

lemma remove_unvalidated_subseq:
  assumes "remove_unvalidated flt t m c = Inr c'"
  shows "subseq (select_id_name t' (store c')) (select_id_name t' (store c))"
  using remove_unvalidated_select_id_name [OF assms, of t'] by simp

lemma remove_unvalidated_valid:
  assumes "remove_unvalidated flt t m c = Inr c'"
    and "(i, n) \<in> set (select_id_name t (store c'))"
  shows "\<not> not_in_valid_set (original_valid_set m) n"
proof
  assume bad: "not_in_valid_set (original_valid_set m) n"
  from assms(2) remove_unvalidated_select_id_name [OF assms(1), of t]
  have in0: "(i, n) \<in> set (select_id_name t (store c))"
    and out: "i \<notin> fst ` set (filter (\<lambda>(i, n). not_in_valid_set (original_valid_set m) n)
                 (select_id_name t (store c)))"
    by auto
  from in0 bad have "i \<in> fst ` set (filter (\<lambda>(i, n). not_in_valid_set (original_valid_set m) n)
                 (select_id_name t (store c)))" by force
  with out show False by contradiction
qed

lemma step3_subseq:
  "step3 flt tm c = Inr c' \<Longrightarrow>
   subseq (select_id_name t' (store c')) (select_id_name t' (store c))"
proof (induction tm arbitrary: c)
  case Nil
  then show ?case by simp
next
  case (Cons x tm)
  obtain t m where x: "x = (t, m)" by (cases x)
  with Cons.prems obtain c1 where a: "remove_unvalidated flt t m c = Inr c1"
    and b: "step3 flt tm c1 = Inr c'" by (auto split: sum.splits)
  from remove_unvalidated_subseq [OF a] Cons.IH [OF b] show ?case
    by (rule subseq_order.trans [rotated])
qed

lemma step3_valid:
  "step3 flt tm c = Inr c' \<Longrightarrow> (t, m) \<in> set tm \<Longrightarrow>
   (i, n) \<in> set (select_id_name t (store c')) \<Longrightarrow>
   \<not> not_in_valid_set (original_valid_set m) n"
proof (induction tm arbitrary: c)
  case Nil
  then show ?case by simp
next
  case (Cons x tm)
  obtain t0 m0 where x: "x = (t0, m0)" by (cases x)
  with Cons.prems(1) obtain c1 where a: "remove_unvalidated flt t0 m0 c = Inr c1"
    and b: "step3 flt tm c1 = Inr c'" by (auto split: sum.splits)
  show ?case
  proof (cases "(t, m) \<in> set tm")
    case True
    from Cons.IH [OF b True Cons.prems(3)] show ?thesis .
  next
    case False
    with Cons.prems(2) x have tm: "t0 = t" "m0 = m" by auto
    from subseq_set_mono [OF step3_subseq [OF b, of t]] Cons.prems(3)
    have "(i, n) \<in> set (select_id_name t (store c1))" by (rule subsetD)
    with remove_unvalidated_valid [OF a [unfolded tm]] show ?thesis by blast
  qed
qed

lemma removed_ids_simps [simp]:
  "removed_ids [] = []"
  "removed_ids ((n, canon, ids) # gs) = filter (\<lambda>x. x \<noteq> canon) ids @ removed_ids gs"
  by (simp_all add: removed_ids_def)

lemma dedupe_groups_select_id_name:
  "dedupe_groups flt t gs c = Inr c' \<Longrightarrow>
   select_id_name t' (store c') =
     (if t' = t then filter (\<lambda>(j, n). j \<notin> set (removed_ids gs)) (select_id_name t (store c))
      else select_id_name t' (store c))"
proof (induction gs arbitrary: c)
  case Nil
  then show ?case by simp
next
  case (Cons g gs)
  obtain n canon ids where g: "g = (n, canon, ids)" by (cases g)
  let ?dups = "filter (\<lambda>x. x \<noteq> canon) ids"
  show ?case
  proof (cases "?dups = []")
    case True
    with Cons.prems g have "dedupe_groups flt t gs c = Inr c'" by simp
    from Cons.IH [OF this] g True show ?thesis by simp
  next
    case False
    with Cons.prems g obtain c1 c2 where
      r: "remap_loop flt canon ?dups t fk_relationships c = Inr c1"
      and d: "execute flt (DeleteWhereIdIn t ?dups) c1 = Inr c2"
      and rest: "dedupe_groups flt t gs c2 = Inr c'"
      by (auto simp: Let_def split: sum.splits)
    have 1: "select_id_name t' (store c1) = select_id_name t' (store c)"
      by (rule remap_loop_select_id_name [OF r])
    have 2: "select_id_name t' (store c2) =
        (if t' = t then filter (\<lambda>(j, n). j \<notin> set ?dups) (select_id_name t' (store c1))
         else select_id_name t' (store c1))"
      using execute_Inr [OF d] by (simp add: select_id_name_apply)
    from Cons.IH [OF rest] 1 2 g show ?thesis
      by (auto simp: case_prod_unfold intro: filter_cong)
  qed
qed

lemma dedupe_table_select_id_name:
  assumes "dedupe_table flt t c = Inr c'"
  shows "select_id_name t' (store c') =
     (if t' = t
      then filter (\<lambda>(j, n). j \<notin> set (removed_ids (select_duplicates t (store c))))
             (select_id_name t (store c))
      else select_id_name t' (store c))"
proof -
  from assms obtain c1 where s: "execute flt (SelectDuplicates t) c = Inr c1"
    and g: "dedupe_groups flt t (select_duplicates t (store c1)) c1 = Inr c'"
    by (auto simp: dedupe_table_def split: sum.splits)
  have 1: "store c1 = store c" using execute_Inr [OF s] by (simp add: apply_stmt.simps)
  from dedupe_groups_select_id_name [OF g, of t'] show ?thesis by (simp add: 1)
qed

lemma dedupe_table_subseq:
  assumes "dedupe_table flt t c = Inr c'"
  shows "subseq (select_id_name t' (store c')) (select_id_name t' (store c))"
  using dedupe_table_select_id_name [OF assms, of t'] by simp

lemma step4_subseq:
  "step4 flt ts c = Inr c' \<Longrightarrow>
   subseq (select_id_name t' (store c')) (select_id_name t' (store c))"
proof (induction ts arbitrary: c)
  case Nil
  then show ?case by simp
next
  case (Cons t ts)
  then obtain c1 where a: "dedupe_table flt t c = Inr c1"
    and b: "step4 flt ts c1 = Inr c'" by (auto split: sum.splits)
  from dedupe_table_subseq [OF a] Cons.IH [OF b] show ?case
    by (rule subseq_order.trans [rotated])
qed

text \<open>The ids that the deduplication of a table removes.\<close>

lemma in_removed_ids_select_duplicates:
  "x \<in> set (removed_ids (select_duplicates t d)) \<longleftrightarrow>
     (\<exists>k. 1 < length (group_ids t d k) \<and> x \<in> set (group_ids t d k)
          \<and> x \<noteq> canonical_id_of t d k)"
proof
  assume "x \<in> set (removed_ids (select_duplicates t d))"
  then obtain n canon ids where g: "(n, canon, ids) \<in> set (select_duplicates t d)"
    and x: "x \<in> set ids" "x \<noteq> canon"
    by (auto simp: removed_ids_def)
  from g obtain k where "1 < length (group_ids t d k)" "canon = canonical_id_of t d k"
    "ids = group_ids t d k"
    by (auto simp: select_duplicates_def Let_def group_ids_def canonical_id_of_def
             split: if_splits)
  with x show "\<exists>k. 1 < length (group_ids t d k) \<and> x \<in> set (group_ids t d k)
          \<and> x \<noteq> canonical_id_of t d k" by blast
next
  assume "\<exists>k. 1 < length (group_ids t d k) \<and> x \<in> set (group_ids t d k)
          \<and> x \<noteq> canonical_id_of t d k"
  then obtain k where k: "1 < length (group_ids t d k)" "x \<in> set (group_ids t d k)"
    "x \<noteq> canonical_id_of t d k" by blast
  from k(2) have kin: "k \<in> set (map lower_name (rows_of t d))"
    by (auto simp: group_ids_def)
  let ?n = "r_name (hd (filter (\<lambda>r. r_id r = canonical_id_of t d k)
                 (filter (\<lambda>r. lower_name r = k) (rows_of t d))))"
  from k(1) kin have "(?n, canonical_id_of t d k, group_ids t d k) \<in> set (select_duplicates t d)"
    by (auto simp: select_duplicates_def Let_def group_ids_def canonical_id_of_def
             intro!: bexI [of _ k])
  with k(2,3) show "x \<in> set (removed_ids (select_duplicates t d))"
    by (force simp: removed_ids_def)
qed

lemma group_ids_single:
  assumes "distinct (ids_of t d)" "r \<in> set (rows_of t d)"
    "\<not> 1 < length (group_ids t d (lower_name r))"
  shows "group_ids t d (lower_name r) = [r_id r]"
proof -
  have "r_id r \<in> set (group_ids t d (lower_name r))"
    using assms(2) by (auto simp: group_ids_def)
  with assms(3) show ?thesis
    by (cases "group_ids t d (lower_name r)") (auto simp: not_less)
qed

lemma survivor_iff:
  assumes "distinct (ids_of t d)" "r \<in> set (rows_of t d)"
  shows "r_id r \<notin> set (removed_ids (select_duplicates t d))
           \<longleftrightarrow> r_id r = canonical_id_of t d (lower_name r)"
proof
  assume keep: "r_id r \<notin> set (removed_ids (select_duplicates t d))"
  have mem: "r_id r \<in> set (group_ids t d (lower_name r))"
    using assms(2) by (auto simp: group_ids_def)
  show "r_id r = canonical_id_of t d (lower_name r)"
  proof (cases "1 < length (group_ids t d (lower_name r))")
    case True
    with keep mem show ?thesis by (auto simp: in_removed_ids_select_duplicates)
  next
    case False
    from group_ids_single [OF assms False] show ?thesis by (simp add: canonical_id_of_def)
  qed
next
  assume canon: "r_id r = canonical_id_of t d (lower_name r)"
  show "r_id r \<notin> set (removed_ids (select_duplicates t d))"
  proof
    assume "r_id r \<in> set (removed_ids (select_duplicates t d))"
    then obtain k where k: "r_id r \<in> set (group_ids t d k)" "r_id r \<noteq> canonical_id_of t d k"
      by (auto simp: in_removed_ids_select_duplicates)
    from k(1) obtain r' where r': "r' \<in> set (rows_of t d)" "lower_name r' = k" "r_id r' = r_id r"
      by (auto simp: group_ids_def)
    from assms r'(1,3) have "r' = r"
      by (auto simp: ids_of_def distinct_map dest: inj_onD)
    with r'(2) k(2) canon show False by simp
  qed
qed

section \<open>Executed statements and their order\<close>

lemma replay_simps [simp]:
  "replay [] d = d" "replay (q # qs) d = replay qs (apply_stmt q d)"
  "replay (qs @ qs') d = replay qs' (replay qs d)"
  by (simp_all add: replay_def)

lemma no_fault_append [simp]:
  "no_fault flt (qs @ qs') d = (no_fault flt qs d \<and> no_fault flt qs' (replay qs d))"
  by (induction qs arbitrary: d) auto

lemma runs_refl [simp]: "runs flt c [] c"
  by (simp add: runs_def)

lemma runs_execute: "execute flt q c = Inr c' \<Longrightarrow> runs flt c [q] c'"
  by (auto simp: runs_def dest: execute_Inr)

lemma runs_trans: "runs flt c qs c1 \<Longrightarrow> runs flt c1 qs' c' \<Longrightarrow> runs flt c (qs @ qs') c'"
  by (simp add: runs_def)

lemma runs_Cons: "execute flt q c = Inr c1 \<Longrightarrow> runs flt c1 qs c' \<Longrightarrow> runs flt c (q # qs) c'"
  using runs_trans [OF runs_execute, of flt q c c1 qs c'] by simp

lemma guarded_from_append:
  "guarded_from pre (xs @ ys) = (guarded_from pre xs \<and> guarded_from (pre @ xs) ys)"
  by (induction xs arbitrary: pre) auto

lemma self_guarded_Nil [simp]: "self_guarded []"
  by (simp add: self_guarded_def)

lemma self_guarded_append:
  "self_guarded xs \<Longrightarrow> self_guarded ys \<Longrightarrow> self_guarded (xs @ ys)"
  by (simp add: self_guarded_def guarded_from_append)

lemma cascaded_no_delete: "\<not> is_delete q \<Longrightarrow> cascaded pre q"
  by (cases q) simp_all

lemma guarded_from_no_delete: "list_all (\<lambda>q. \<not> is_delete q) qs \<Longrightarrow> guarded_from pre qs"
  by (induction qs arbitrary: pre) (auto simp: cascaded_no_delete)

lemma self_guarded_no_delete: "list_all (\<lambda>q. \<not> is_delete q) qs \<Longrightarrow> self_guarded qs"
  by (simp add: self_guarded_def guarded_from_no_delete)

lemma no_delete_cascade_null: "list_all (\<lambda>q. \<not> is_delete q) (cascade_null i t)"
  by (simp add: cascade_null_def list_all_iff case_prod_unfold)

lemma no_delete_cascade_remap: "list_all (\<lambda>q. \<not> is_delete q) (cascade_remap canon dups t)"
  by (simp add: cascade_remap_def list_all_iff case_prod_unfold)

lemma self_guarded_delete: "self_guarded (cascade_null i t @ [DeleteWhereId t i])"
  by (simp add: self_guarded_def guarded_from_append guarded_from_no_delete
      no_delete_cascade_null suffix_def)

lemma self_guarded_delete_in:
  "\<forall>x\<in>set dups. canon < x \<Longrightarrow>
   self_guarded (cascade_remap canon dups t @ [DeleteWhereIdIn t dups])"
  by (auto simp: self_guarded_def guarded_from_append guarded_from_no_delete
      no_delete_cascade_remap suffix_def)

text \<open>What each loop executes.\<close>

lemma nullify_loop_runs:
  "nullify_loop flt i t es c = Inr c' \<Longrightarrow>
   \<exists>qs. runs flt c qs c'
      \<and> (schema_conforms flt \<longrightarrow>
           qs = map (\<lambda>(ft, fc, rt). UpdateFkNull ft fc i) (filter (\<lambda>(ft, fc, rt). rt = t) es))"
proof (induction es arbitrary: c)
  case Nil
  then have "runs flt c [] c'" by simp
  then show ?case by auto
next
  case (Cons e es)
  obtain ft fc rt where e: "e = (ft, fc, rt)" by (cases e)
  show ?case
  proof (cases "rt = t")
    case False
    with Cons.prems e have "nullify_loop flt i t es c = Inr c'" by simp
    from Cons.IH [OF this] False e show ?thesis by simp
  next
    case True
    show ?thesis
    proof (cases "execute flt (UpdateFkNull ft fc i) c")
      case (Inl err)
      with Cons.prems e True have tol: "tolerated err"
        and rest: "nullify_loop flt i t es c = Inr c'" by (simp_all split: if_splits)
      from execute_Inl [OF Inl] tol have "\<not> schema_conforms flt"
        by (auto simp: schema_conforms_def)
      with Cons.IH [OF rest] show ?thesis by auto
    next
      case (Inr c1)
      with Cons.prems e True have "nullify_loop flt i t es c1 = Inr c'" by simp
      from Cons.IH [OF this] obtain qs where qs: "runs flt c1 qs c'"
        "schema_conforms flt \<longrightarrow>
           qs = map (\<lambda>(ft, fc, rt). UpdateFkNull ft fc i) (filter (\<lambda>(ft, fc, rt). rt = t) es)"
        by blast
      from runs_Cons [OF Inr qs(1)] qs(2) e True show ?thesis by auto
    qed
  qed
qed

lemma remap_loop_runs:
  "remap_loop flt canon dups t es c = Inr c' \<Longrightarrow>
   \<exists>qs. runs flt c qs c'
      \<and> (schema_conforms flt \<longrightarrow>
           qs = map (\<lambda>(ft, fc, rt). UpdateFkRemap ft fc canon dups)
                  (filter (\<lambda>(ft, fc, rt). rt = t) es))"
proof (induction es arbitrary: c)
  case Nil
  then have "runs flt c [] c'" by simp
  then show ?case by auto
next
  case (Cons e es)
  obtain ft fc rt where e: "e = (ft, fc, rt)" by (cases e)
  show ?case
  proof (cases "rt = t")
    case False
    with Cons.prems e have "remap_loop flt canon dups t es c = Inr c'" by simp
    from Cons.IH [OF this] False e show ?thesis by simp
  next
    case True
    show ?thesis
    proof (cases "execute flt (UpdateFkRemap ft fc canon dups) c")
      case (Inl err)
      with Cons.prems e True have tol: "tolerated err"
        and rest: "remap_loop flt canon dups t es c = Inr c'" by (simp_all split: if_splits)
      from execute_Inl [OF Inl] tol have "\<not> schema_conforms flt"
        by (auto simp: schema_conforms_def)
      with Cons.IH [OF rest] show ?thesis by auto
    next
      case (Inr c1)
      with Cons.prems e True have "remap_loop flt canon dups t es c1 = Inr c'" by simp
      from Cons.IH [OF this] obtain qs where qs: "runs flt c1 qs c'"
        "schema_conforms flt \<longrightarrow>
           qs = map (\<lambda>(ft, fc, rt). UpdateFkRemap ft fc canon dups)
                  (filter (\<lambda>(ft, fc, rt). rt = t) es)"
        by blast
      from runs_Cons [OF Inr qs(1)] qs(2) e True show ?thesis by auto
    qed
  qed
qed

lemma delete_loop_runs:
  "delete_loop flt t dels c = Inr c' \<Longrightarrow>
   \<exists>qs. runs flt c qs c'
      \<and> (schema_conforms flt \<longrightarrow>
           qs = concat (map (\<lambda>(i, n). cascade_null i t @ [DeleteWhereId t i]) dels))"
proof (induction dels arbitrary: c)
  case Nil
  then have "runs flt c [] c'" by simp
  then show ?case by auto
next
  case (Cons x dels)
  obtain i n where x: "x = (i, n)" by (cases x)
  from Cons.prems x obtain c1 c2 where
    n: "nullify_loop flt i t fk_relationships c = Inr c1"
    and d: "execute flt (DeleteWhereId t i) c1 = Inr c2"
    and r: "delete_loop flt t dels c2 = Inr c'"
    by (auto simp: nullify_fks_referencing_id_def split: sum.splits)
  from nullify_loop_runs [OF n] obtain q1 where q1: "runs flt c q1 c1"
    "schema_conforms flt \<longrightarrow> q1 = cascade_null i t"
    by (auto simp: cascade_null_def)
  from Cons.IH [OF r] obtain q2 where q2: "runs flt c2 q2 c'"
    "schema_conforms flt \<longrightarrow>
       q2 = concat (map (\<lambda>(i, n). cascade_null i t @ [DeleteWhereId t i]) dels)"
    by blast
  from runs_trans [OF q1(1) runs_Cons [OF d q2(1)]]
  have "runs flt c (q1 @ DeleteWhereId t i # q2) c'" .
  with q1(2) q2(2) x show ?case by auto
qed

lemma update_loop_runs:
  "update_loop flt t ups c = Inr c' \<Longrightarrow>
   \<exists>qs. runs flt c qs c' \<and> list_all (\<lambda>q. \<not> is_delete q) qs"
proof (induction ups arbitrary: c)
  case Nil
  then have "runs flt c [] c'" by simp
  then show ?case by force
next
  case (Cons u ups)
  obtain i n orig where u: "u = (i, n, orig)" by (cases u)
  from Cons.prems(1) u obtain c1 where
    s: "execute flt (SelectNameWhereId t i) c = Inr c1"
    by (auto split: sum.splits)
  from Cons.prems(1) u s consider
    (skip) "update_loop flt t ups c1 = Inr c'"
    | (upd) c2 where "execute flt (UpdateNameWhereId t n i) c1 = Inr c2"
        "update_loop flt t ups c2 = Inr c'"
    by (auto split: sum.splits option.splits if_splits)
  then show ?case
  proof cases
    case skip
    from Cons.IH [OF skip] obtain qs where "runs flt c1 qs c'" "list_all (\<lambda>q. \<not> is_delete q) qs"
      by blast
    with runs_Cons [OF s] have "runs flt c (SelectNameWhereId t i # qs) c'
        \<and> list_all (\<lambda>q. \<not> is_delete q) (SelectNameWhereId t i # qs)" by simp
    then show ?thesis by blast
  next
    case upd
    from Cons.IH [OF upd(2)] obtain qs where "runs flt c2 qs c'"
      "list_all (\<lambda>q. \<not> is_delete q) qs" by blast
    with runs_Cons [OF s runs_Cons [OF upd(1)]]
    have "runs flt c (SelectNameWhereId t i # UpdateNameWhereId t n i # qs) c'
        \<and> list_all (\<lambda>q. \<not> is_delete q) (SelectNameWhereId t i # UpdateNameWhereId t n i # qs)"
      by simp
    then show ?thesis by blast
  qed
qed

lemma self_guarded_deletes:
  "self_guarded (concat (map (\<lambda>(i, n). cascade_null i t @ [DeleteWhereId t i]) dels))"
  by (induction dels) (auto intro: self_guarded_append self_guarded_delete)

lemma correct_table_runs:
  assumes "correct_table flt t m c = Inr c'"
  shows "\<exists>qs. runs flt c qs c' \<and> (schema_conforms flt \<longrightarrow> self_guarded qs)"
proof -
  from correct_table_Inr [OF assms] obtain c1 ups dels c2 where
    s: "execute flt (SelectIdName t) c = Inr c1"
    and d: "delete_loop flt t dels c1 = Inr c2" and u: "update_loop flt t ups c2 = Inr c'"
    by blast
  from delete_loop_runs [OF d] obtain q1 where q1: "runs flt c1 q1 c2"
    "schema_conforms flt \<longrightarrow>
       q1 = concat (map (\<lambda>(i, n). cascade_null i t @ [DeleteWhereId t i]) dels)" by blast
  from update_loop_runs [OF u] obtain q2 where q2: "runs flt c2 q2 c'"
    "list_all (\<lambda>q. \<not> is_delete q) q2" by blast
  have r: "runs flt c (SelectIdName t # q1 @ q2) c'"
    by (rule runs_Cons [OF s runs_trans [OF q1(1) q2(1)]])
  have "self_guarded ([SelectIdName t] @ q1 @ q2)" if "schema_conforms flt"
  proof (intro self_guarded_append)
    show "self_guarded [SelectIdName t]" by (simp add: self_guarded_no_delete)
    show "self_guarded q1" using q1(2) that by (simp add: self_guarded_deletes)
    show "self_guarded q2" using q2(2) by (rule self_guarded_no_delete)
  qed
  with r show ?thesis by auto
qed

lemma step2_runs:
  "step2 flt tm c = Inr c' \<Longrightarrow>
   \<exists>qs. runs flt c qs c' \<and> (schema_conforms flt \<longrightarrow> self_guarded qs)"
proof (induction tm arbitrary: c)
  case Nil
  then have "runs flt c [] c'" by simp
  then show ?case by force
next
  case (Cons x tm)
  obtain t m where x: "x = (t, m)" by (cases x)
  with Cons.prems obtain c1 where a: "correct_table flt t m c = Inr c1"
    and b: "step2 flt tm c1 = Inr c'" by (auto split: sum.splits)
  from correct_table_runs [OF a] obtain q1 where q1: "runs flt c q1 c1"
    "schema_conforms flt \<longrightarrow> self_guarded q1" by blast
  from Cons.IH [OF b] obtain q2 where q2: "runs flt c1 q2 c'"
    "schema_conforms flt \<longrightarrow> self_guarded q2" by blast
  from runs_trans [OF q1(1) q2(1)] q1(2) q2(2) show ?case
    by (auto intro: self_guarded_append)
qed

lemma remove_unvalidated_runs:
  assumes "remove_unvalidated flt t m c = Inr c'"
  shows "\<exists>qs. runs flt c qs c'
     \<and> (schema_conforms flt \<longrightarrow>
          qs = SelectIdName t #
               concat (map (\<lambda>(i, n). cascade_null i t @ [DeleteWhereId t i])
                 (filter (\<lambda>(i, n). not_in_valid_set (original_valid_set m) n)
                    (select_id_name t (store c)))))"
proof -
  from assms obtain c1 where
    s: "execute flt (SelectIdName t) c = Inr c1"
    and d: "delete_loop flt t (filter (\<lambda>(i, n). not_in_valid_set (original_valid_set m) n)
              (select_id_name t (store c1))) c1 = Inr c'"
    by (auto simp: remove_unvalidated_def split: sum.splits)
  have 1: "store c1 = store c" using execute_Inr [OF s] by (simp add: apply_stmt.simps)
  from delete_loop_runs [OF d] obtain q1 where q1: "runs flt c1 q1 c'"
    "schema_conforms flt \<longrightarrow>
       q1 = concat (map (\<lambda>(i, n). cascade_null i t @ [DeleteWhereId t i])
              (filter (\<lambda>(i, n). not_in_valid_set (original_valid_set m) n)
                 (select_id_name t (store c))))"
    unfolding 1 by blast
  from runs_Cons [OF s q1(1)] q1(2) show ?thesis by auto
qed

lemma remove_unvalidated_guarded:
  assumes "remove_unvalidated flt t m c = Inr c'"
  shows "\<exists>qs. runs flt c qs c' \<and> (schema_conforms flt \<longrightarrow> self_guarded qs)"
proof -
  from remove_unvalidated_runs [OF assms] obtain qs where qs: "runs flt c qs c'"
    "schema_conforms flt \<longrightarrow>
          qs = [SelectIdName t] @
               concat (map (\<lambda>(i, n). cascade_null i t @ [DeleteWhereId t i])
                 (filter (\<lambda>(i, n). not_in_valid_set (original_valid_set m) n)
                    (select_id_name t (store c))))" by auto
  have "self_guarded qs" if "schema_conforms flt"
  proof -
    have "self_guarded ([SelectIdName t] @
               concat (map (\<lambda>(i, n). cascade_null i t @ [DeleteWhereId t i])
                 (filter (\<lambda>(i, n). not_in_valid_set (original_valid_set m) n)
                    (select_id_name t (store c)))))"
      by (intro self_guarded_append self_guarded_deletes self_guarded_no_delete) simp
    with qs(2) that show ?thesis by simp
  qed
  with qs(1) show ?thesis by blast
qed

lemma step3_runs:
  "step3 flt tm c = Inr c' \<Longrightarrow>
   \<exists>qs. runs flt c qs c' \<and> (schema_conforms flt \<longrightarrow> self_guarded qs)"
proof (induction tm arbitrary: c)
  case Nil
  then have "runs flt c [] c'" by simp
  then show ?case by force
next
  case (Cons x tm)
  obtain t m where x: "x = (t, m)" by (cases x)
  with Cons.prems obtain c1 where a: "remove_unvalidated flt t m c = Inr c1"
    and b: "step3 flt tm c1 = Inr c'" by (auto split: sum.splits)
  from remove_unvalidated_guarded [OF a] obtain q1 where q1: "runs flt c q1 c1"
    "schema_conforms flt \<longrightarrow> self_guarded q1" by blast
  from Cons.IH [OF b] obtain q2 where q2: "runs flt c1 q2 c'"
    "schema_conforms flt \<longrightarrow> self_guarded q2" by blast
  from runs_trans [OF q1(1) q2(1)] q1(2) q2(2) show ?case
    by (auto intro: self_guarded_append)
qed

lemma dedupe_groups_runs:
  "dedupe_groups flt t gs c = Inr c' \<Longrightarrow>
   \<forall>(n, canon, ids)\<in>set gs. \<forall>x\<in>set ids. canon \<le> x \<Longrightarrow>
   \<exists>qs. runs flt c qs c' \<and> (schema_conforms flt \<longrightarrow> self_guarded qs)"
proof (induction gs arbitrary: c)
  case Nil
  then have "runs flt c [] c'" by simp
  then show ?case by force
next
  case (Cons g gs)
  obtain n canon ids where g: "g = (n, canon, ids)" by (cases g)
  let ?dups = "filter (\<lambda>x. x \<noteq> canon) ids"
  from Cons.prems(2) g have le: "\<forall>x\<in>set ?dups. canon < x"
    and rest_le: "\<forall>(n, canon, ids)\<in>set gs. \<forall>x\<in>set ids. canon \<le> x" by auto
  show ?case
  proof (cases "?dups = []")
    case True
    with Cons.prems(1) g have "dedupe_groups flt t gs c = Inr c'" by simp
    from Cons.IH [OF this rest_le] show ?thesis .
  next
    case False
    with Cons.prems(1) g obtain c1 c2 where
      r: "remap_loop flt canon ?dups t fk_relationships c = Inr c1"
      and d: "execute flt (DeleteWhereIdIn t ?dups) c1 = Inr c2"
      and rest: "dedupe_groups flt t gs c2 = Inr c'"
      by (auto simp: Let_def split: sum.splits)
    from remap_loop_runs [OF r] obtain q1 where q1: "runs flt c q1 c1"
      "schema_conforms flt \<longrightarrow> q1 = cascade_remap canon ?dups t"
      by (auto simp: cascade_remap_def)
    from Cons.IH [OF rest rest_le] obtain q2 where q2: "runs flt c2 q2 c'"
      "schema_conforms flt \<longrightarrow> self_guarded q2" by blast
    have r: "runs flt c ((q1 @ [DeleteWhereIdIn t ?dups]) @ q2) c'"
      using runs_trans [OF q1(1) runs_Cons [OF d q2(1)]] by simp
    have "self_guarded ((q1 @ [DeleteWhereIdIn t ?dups]) @ q2)" if "schema_conforms flt"
    proof (rule self_guarded_append)
      show "self_guarded (q1 @ [DeleteWhereIdIn t ?dups])"
        using that q1(2) self_guarded_delete_in [OF le] by simp
      show "self_guarded q2" using that q2(2) by simp
    qed
    with r show ?thesis by blast
  qed
qed

lemma select_duplicates_canonical:
  "(n, canon, ids) \<in> set (select_duplicates t d) \<Longrightarrow>
   canon = Min (set ids) \<and> ids \<noteq> [] \<and> canon \<in> set ids \<and> (\<forall>x\<in>set ids. canon \<le> x)"
proof -
  assume "(n, canon, ids) \<in> set (select_duplicates t d)"
  then have c: "canon = Min (set ids)" and ne: "ids \<noteq> []"
    by (auto simp: select_duplicates_def Let_def split: if_splits)
  from ne have "Min (set ids) \<in> set ids" by (intro Min_in) auto
  with c ne show ?thesis by auto
qed

lemma dedupe_table_runs:
  assumes "dedupe_table flt t c = Inr c'"
  shows "\<exists>qs. runs flt c qs c' \<and> (schema_conforms flt \<longrightarrow> self_guarded qs)"
proof -
  from assms obtain c1 where s: "execute flt (SelectDuplicates t) c = Inr c1"
    and g: "dedupe_groups flt t (select_duplicates t (store c1)) c1 = Inr c'"
    by (auto simp: dedupe_table_def split: sum.splits)
  have "\<forall>(n, canon, ids)\<in>set (select_duplicates t (store c1)). \<forall>x\<in>set ids. canon \<le> x"
    using select_duplicates_canonical by blast
  from dedupe_groups_runs [OF g this] obtain qs where qs: "runs flt c1 qs c'"
    "schema_conforms flt \<longrightarrow> self_guarded qs" by blast
  have "self_guarded ([SelectDuplicates t] @ qs)" if "schema_conforms flt"
  proof (rule self_guarded_append)
    show "self_guarded [SelectDuplicates t]" by (simp add: self_guarded_no_delete)
    show "self_guarded qs" using that qs(2) by simp
  qed
  with runs_Cons [OF s qs(1)] show ?thesis by auto
qed

lemma step4_runs:
  "step4 flt ts c = Inr c' \<Longrightarrow>
   \<exists>qs. runs flt c qs c' \<and> (schema_conforms flt \<longrightarrow> self_guarded qs)"
proof (induction ts arbitrary: c)
  case Nil
  then have "runs flt c [] c'" by simp
  then show ?case by force
next
  case (Cons t ts)
  then obtain c1 where a: "dedupe_table flt t c = Inr c1"
    and b: "step4 flt ts c1 = Inr c'" by (auto split: sum.splits)
  from dedupe_table_runs [OF a] obtain q1 where q1: "runs flt c q1 c1"
    "schema_conforms flt \<longrightarrow> self_guarded q1" by blast
  from Cons.IH [OF b] obtain q2 where q2: "runs flt c1 q2 c'"
    "schema_conforms flt \<longrightarrow> self_guarded q2" by blast
  from runs_trans [OF q1(1) q2(1)] q1(2) q2(2) show ?case
    by (auto intro: self_guarded_append)
qed

lemma steps_Inr:
  assumes "steps flt tm c = Inr c'"
  shows "\<exists>c2 c3. step2 flt tm c = Inr c2 \<and> step3 flt tm c2 = Inr c3
           \<and> step4 flt (map fst tm) c3 = Inr c'"
  using assms by (auto simp: steps_def split: sum.splits)

lemma steps_runs:
  assumes "steps flt tm c = Inr c'"
  shows "\<exists>qs. runs flt c qs c' \<and> (schema_conforms flt \<longrightarrow> self_guarded qs)"
proof -
  from steps_Inr [OF assms] obtain c2 c3 where a: "step2 flt tm c = Inr c2"
    and b: "step3 flt tm c2 = Inr c3" and d: "step4 flt (map fst tm) c3 = Inr c'" by blast
  from step2_runs [OF a] obtain q1 where q1: "runs flt c q1 c2"
    "schema_conforms flt \<longrightarrow> self_guarded q1" by blast
  from step3_runs [OF b] obtain q2 where q2: "runs flt c2 q2 c3"
    "schema_conforms flt \<longrightarrow> self_guarded q2" by blast
  from step4_runs [OF d] obtain q3 where q3: "runs flt c3 q3 c'"
    "schema_conforms flt \<longrightarrow> self_guarded q3" by blast
  from runs_trans [OF q1(1) runs_trans [OF q2(1) q3(1)]] q1(2) q2(2) q3(2) show ?thesis
    by (auto intro: self_guarded_append)
qed

section \<open>The entry point\<close>

lemma sample_run:
  "clean_database no_faults sample_net (Some sample_db)
     = Some (Committed sample_cleaned sample_trace [FetchWarning ''ability''])"
  by code_simp

lemma sample_run_twice:
  "clean_database no_faults sample_net (Some sample_cleaned)
     = Some (Committed sample_cleaned
         [PragmaForeignKeysOn, SelectIdName Pokemon, SelectIdName Types, SelectIdName Abilities,
          SelectIdName Trainers, SelectIdName Pokemon, SelectIdName Types, SelectIdName Abilities,
          SelectIdName Trainers, SelectDuplicates Pokemon, SelectDuplicates Types,
          SelectDuplicates Abilities, SelectDuplicates Trainers, Commit]
         [FetchWarning ''ability''])"
  by code_simp

lemma fetch_vocabularies_tables_meta:
  assumes "fetch_vocabularies net = Some (Names (tm, w))"
  obtains pn tn an where "tm = tables_meta pn tn an"
  using assms
  by (auto simp: fetch_vocabularies_def split: option.splits fetched.splits)

lemma clean_database_outcome:
  "clean_database flt net (Some d) =
     (case execute flt PragmaForeignKeysOn \<lparr>store = d, trace = []\<rparr> of
        Inl e \<Rightarrow> Some (RolledBack d [CleaningError e])
      | Inr c0 \<Rightarrow>
          (case fetch_vocabularies net of
             None \<Rightarrow> None
           | Some (Raised x) \<Rightarrow> Some (Propagated x)
           | Some (Names (tm, warnings)) \<Rightarrow>
               (case steps flt tm c0 of
                  Inl e \<Rightarrow> Some (RolledBack d (warnings @ [CleaningError e]))
                | Inr c \<Rightarrow>
                    (case execute flt Commit c of
                       Inl e \<Rightarrow> Some (RolledBack d (warnings @ [CleaningError e]))
                     | Inr c' \<Rightarrow> Some (Committed (store c') (trace c') warnings)))))"
  by (simp add: clean_database_def)

lemma clean_database_Committed:
  assumes "clean_database flt net (Some d) = Some (Committed d' tr w)"
  shows "\<exists>c0 tm c c'. execute flt PragmaForeignKeysOn \<lparr>store = d, trace = []\<rparr> = Inr c0
          \<and> fetch_vocabularies net = Some (Names (tm, w))
          \<and> steps flt tm c0 = Inr c \<and> execute flt Commit c = Inr c'
          \<and> d' = store c' \<and> tr = trace c'"
  using assms unfolding clean_database_outcome
  by (auto split: sum.splits option.splits fetched.splits prod.splits)

lemma clean_database_runs:
  assumes "clean_database flt net (Some d) = Some (Committed d' tr w)"
  shows "\<exists>tm c qs. fetch_vocabularies net = Some (Names (tm, w))
          \<and> steps flt tm \<lparr>store = d, trace = [PragmaForeignKeysOn]\<rparr> = Inr c
          \<and> runs flt \<lparr>store = d, trace = [PragmaForeignKeysOn]\<rparr> qs c
          \<and> (schema_conforms flt \<longrightarrow> self_guarded qs)
          \<and> flt PragmaForeignKeysOn d = None
          \<and> flt Commit (store c) = None
          \<and> d' = store c \<and> tr = PragmaForeignKeysOn # qs @ [Commit]"
proof -
  from clean_database_Committed [OF assms] obtain c0 tm c c' where
    p: "execute flt PragmaForeignKeysOn \<lparr>store = d, trace = []\<rparr> = Inr c0"
    and f: "fetch_vocabularies net = Some (Names (tm, w))"
    and s: "steps flt tm c0 = Inr c" and cm: "execute flt Commit c = Inr c'"
    and d': "d' = store c'" and tr: "tr = trace c'" by blast
  from execute_Inr [OF p] have c0: "c0 = \<lparr>store = d, trace = [PragmaForeignKeysOn]\<rparr>"
    and f0: "flt PragmaForeignKeysOn d = None"
    by (simp_all add: apply_stmt.simps)
  from steps_runs [OF s] obtain qs where qs: "runs flt c0 qs c"
    "schema_conforms flt \<longrightarrow> self_guarded qs" by blast
  from execute_Inr [OF cm] have c': "store c' = store c" "trace c' = trace c @ [Commit]"
    and fc: "flt Commit (store c) = None"
    by (simp_all add: apply_stmt.simps)
  from qs(1) c0 have "trace c = PragmaForeignKeysOn # qs" by (simp add: runs_def)
  with f s qs f0 fc c' d' tr c0 show ?thesis by auto
qed


section \<open>Validity of the names and failed fetches\<close>

lemma steps_valid:
  assumes "steps flt tm c = Inr c'" "(t, m) \<in> set tm"
    "(i, n) \<in> set (select_id_name t (store c'))"
  shows "\<not> not_in_valid_set (original_valid_set m) n"
proof -
  from steps_Inr [OF assms(1)] obtain c2 c3 where
    b: "step3 flt tm c2 = Inr c3" and d: "step4 flt (map fst tm) c3 = Inr c'" by blast
  from subseq_set_mono [OF step4_subseq [OF d, of t]] assms(3)
  have "(i, n) \<in> set (select_id_name t (store c3))" by (rule subsetD)
  from step3_valid [OF b assms(2) this] show ?thesis .
qed

lemma original_valid_set_meta_of:
  "set (original_valid_set (meta_of names)) = to_title_case ` set names"
  by (simp add: meta_of_def original_valid_set_of_def)

lemma remove_unvalidated_all_valid:
  assumes "remove_unvalidated flt t m c = Inr c'"
  shows "list_all (\<lambda>(i, n). \<not> not_in_valid_set (original_valid_set m) n)
           (select_id_name t (store c'))"
  using remove_unvalidated_valid [OF assms] by (auto simp: list_all_iff)

text \<open>
  Claim C3. After a committed run, every name left in an entity table is a member of
  the canonical display-name set of its category, and that set is made of the
  title-cased forms of the vocabulary of the category. Step 3 of the source (phase 2)
  deletes every row whose name is not in the set: it issues, for each such row, the
  statements that set the foreign keys to it to null, then the \<open>DELETE\<close> of the row, and
  leaves only names of the set in the table.
\<close>

theorem surviving_names_valid:
  assumes "clean_database flt net (Some d) = Some (Committed d' tr w)"
  shows "(\<exists>pn tn an. fetch_vocabularies net = Some (Names (tables_meta pn tn an, w))
            \<and> list_all (\<lambda>(t, m). list_all (\<lambda>(i, n). case n of None \<Rightarrow> False
                                | Some s \<Rightarrow> s \<in> set (original_valid_set m))
                            (select_id_name t d'))
                 (tables_meta pn tn an))
       \<and> set (original_valid_set (meta_of names)) = to_title_case ` set names
       \<and> (remove_unvalidated flt t m c = Inr c1 \<longrightarrow>
            list_all (\<lambda>(i, n). \<not> not_in_valid_set (original_valid_set m) n)
              (select_id_name t (store c1))
            \<and> (schema_conforms flt \<longrightarrow>
                 trace c1 = trace c @ SelectIdName t #
                   concat (map (\<lambda>(i, n). cascade_null i t @ [DeleteWhereId t i])
                     (filter (\<lambda>(i, n). not_in_valid_set (original_valid_set m) n)
                        (select_id_name t (store c))))))"
proof -
  from clean_database_Committed [OF assms] obtain c0 tm c2 c' where
    f: "fetch_vocabularies net = Some (Names (tm, w))"
    and s: "steps flt tm c0 = Inr c2" and cm: "execute flt Commit c2 = Inr c'"
    and d': "d' = store c'" by blast
  from fetch_vocabularies_tables_meta [OF f] obtain pn tn an where
    tm: "tm = tables_meta pn tn an" by blast
  from execute_Inr [OF cm] d' have d2: "d' = store c2" by (simp add: apply_stmt.simps)
  have "list_all (\<lambda>(t, m). list_all (\<lambda>(i, n). case n of None \<Rightarrow> False
                                | Some s \<Rightarrow> s \<in> set (original_valid_set m))
                            (select_id_name t d')) tm"
    unfolding list_all_iff
  proof (intro ballI, clarify)
    fix t m i n
    assume "(t, m) \<in> set tm" "(i, n) \<in> set (select_id_name t d')"
    with steps_valid [OF s] d2 have "\<not> not_in_valid_set (original_valid_set m) n" by blast
    then show "case n of None \<Rightarrow> False | Some s \<Rightarrow> s \<in> set (original_valid_set m)"
      by (simp add: not_in_valid_set_def split: option.splits)
  qed
  with f tm have 1: "\<exists>pn tn an. fetch_vocabularies net = Some (Names (tables_meta pn tn an, w))
            \<and> list_all (\<lambda>(t, m). list_all (\<lambda>(i, n). case n of None \<Rightarrow> False
                                | Some s \<Rightarrow> s \<in> set (original_valid_set m))
                            (select_id_name t d'))
                 (tables_meta pn tn an)" by blast
  have 3: "list_all (\<lambda>(i, n). \<not> not_in_valid_set (original_valid_set m) n)
              (select_id_name t (store c1))
            \<and> (schema_conforms flt \<longrightarrow>
                 trace c1 = trace c @ SelectIdName t #
                   concat (map (\<lambda>(i, n). cascade_null i t @ [DeleteWhereId t i])
                     (filter (\<lambda>(i, n). not_in_valid_set (original_valid_set m) n)
                        (select_id_name t (store c)))))"
    if r: "remove_unvalidated flt t m c = Inr c1"
  proof -
    from remove_unvalidated_runs [OF r] have "schema_conforms flt \<longrightarrow>
                 trace c1 = trace c @ SelectIdName t #
                   concat (map (\<lambda>(i, n). cascade_null i t @ [DeleteWhereId t i])
                     (filter (\<lambda>(i, n). not_in_valid_set (original_valid_set m) n)
                        (select_id_name t (store c))))"
      by (auto simp: runs_def)
    with remove_unvalidated_all_valid [OF r] show ?thesis by blast
  qed
  from 1 original_valid_set_meta_of 3 show ?thesis by blast
qed

lemma schema_conforms_no_faults [simp]: "schema_conforms no_faults"
  by (simp add: schema_conforms_def no_faults_def)

lemma trainers_unvalidated:
  "remove_unvalidated no_faults Trainers (meta_of raw_valid_trainer_names_list)
       \<lparr>store = trainers_sample, trace = []\<rparr>
     = Inr \<lparr>store = trainers_sample
                 \<lparr>t_trainers := [named_row 1 ''Misty''],
                  t_trainer_pokemon_abilities := [link_row None None None]\<rparr>,
              trace = [SelectIdName Trainers,
                       UpdateFkNull Trainer_pokemon_abilities Trainer_id 2,
                       DeleteWhereId Trainers 2,
                       UpdateFkNull Trainer_pokemon_abilities Trainer_id 3,
                       DeleteWhereId Trainers 3]\<rparr>"
  by code_simp

theorem surviving_names_valid_witness:
  "clean_database no_faults sample_net (Some sample_db)
     = Some (Committed sample_cleaned sample_trace [FetchWarning ''ability''])
   \<and> (\<exists>pn tn an. fetch_vocabularies sample_net
                    = Some (Names (tables_meta pn tn an, [FetchWarning ''ability'']))
         \<and> list_all (\<lambda>(t, m). list_all (\<lambda>(i, n). case n of None \<Rightarrow> False
                                | Some s \<Rightarrow> s \<in> set (original_valid_set m))
                            (select_id_name t sample_cleaned))
              (tables_meta pn tn an))
   \<and> remove_unvalidated no_faults Trainers (meta_of raw_valid_trainer_names_list)
       \<lparr>store = trainers_sample, trace = []\<rparr>
     = Inr \<lparr>store = trainers_sample
                 \<lparr>t_trainers := [named_row 1 ''Misty''],
                  t_trainer_pokemon_abilities := [link_row None None None]\<rparr>,
              trace = [SelectIdName Trainers,
                       UpdateFkNull Trainer_pokemon_abilities Trainer_id 2,
                       DeleteWhereId Trainers 2,
                       UpdateFkNull Trainer_pokemon_abilities Trainer_id 3,
                       DeleteWhereId Trainers 3]\<rparr>
   \<and> schema_conforms no_faults
   \<and> list_all (\<lambda>(i, n). \<not> not_in_valid_set
                  (original_valid_set (meta_of raw_valid_trainer_names_list)) n)
        (select_id_name Trainers (trainers_sample
                 \<lparr>t_trainers := [named_row 1 ''Misty''],
                  t_trainer_pokemon_abilities := [link_row None None None]\<rparr>))"
proof -
  note th = surviving_names_valid [OF sample_run,
      where t = Trainers and m = "meta_of raw_valid_trainer_names_list"
        and c = "\<lparr>store = trainers_sample, trace = []\<rparr>"]
  from th have 1: "\<exists>pn tn an. fetch_vocabularies sample_net
                    = Some (Names (tables_meta pn tn an, [FetchWarning ''ability'']))
         \<and> list_all (\<lambda>(t, m). list_all (\<lambda>(i, n). case n of None \<Rightarrow> False
                                | Some s \<Rightarrow> s \<in> set (original_valid_set m))
                            (select_id_name t sample_cleaned))
              (tables_meta pn tn an)" by blast
  from th trainers_unvalidated
  have 2: "list_all (\<lambda>(i, n). \<not> not_in_valid_set
                  (original_valid_set (meta_of raw_valid_trainer_names_list)) n)
        (select_id_name Trainers (store \<lparr>store = trainers_sample
                 \<lparr>t_trainers := [named_row 1 ''Misty''],
                  t_trainer_pokemon_abilities := [link_row None None None]\<rparr>,
              trace = [SelectIdName Trainers,
                       UpdateFkNull Trainer_pokemon_abilities Trainer_id 2,
                       DeleteWhereId Trainers 2,
                       UpdateFkNull Trainer_pokemon_abilities Trainer_id 3,
                       DeleteWhereId Trainers 3]\<rparr>))" by blast
  from 2 have b2: "list_all (\<lambda>(i, n). \<not> not_in_valid_set
                  (original_valid_set (meta_of raw_valid_trainer_names_list)) n)
        (select_id_name Trainers (trainers_sample
                 \<lparr>t_trainers := [named_row 1 ''Misty''],
                  t_trainer_pokemon_abilities := [link_row None None None]\<rparr>))" by simp
  from sample_run 1 trainers_unvalidated schema_conforms_no_faults b2 show ?thesis by blast
qed


section \<open>Deduplication\<close>

lemma select_id_name_row:
  "(j, n) \<in> set (select_id_name t d) \<longleftrightarrow> (\<exists>r\<in>set (rows_of t d). r_id r = j \<and> r_name r = n)"
  by (auto simp: select_id_name_def)

lemma lower_names_select:
  "map lower_name (rows_of t d) = map (\<lambda>(j, n). map_option lower n) (select_id_name t d)"
  by (simp add: select_id_name_def lower_name_def comp_def)

lemma dedupe_table_survivors:
  assumes "dedupe_table flt t c = Inr c'" "distinct (ids_of t (store c))"
  shows "select_id_name t (store c') =
           filter (\<lambda>(j, n). j = canonical_id_of t (store c) (map_option lower n))
             (select_id_name t (store c))"
proof -
  have "filter (\<lambda>(j, n). j \<notin> set (removed_ids (select_duplicates t (store c))))
             (select_id_name t (store c))
      = filter (\<lambda>(j, n). j = canonical_id_of t (store c) (map_option lower n))
             (select_id_name t (store c))"
  proof (rule filter_cong [OF refl])
    fix x assume x: "x \<in> set (select_id_name t (store c))"
    obtain j n where jn: "x = (j, n)" by (cases x)
    with x obtain r where r: "r \<in> set (rows_of t (store c))" "r_id r = j" "r_name r = n"
      by (auto simp: select_id_name_row)
    from survivor_iff [OF assms(2) r(1)] r(2,3) jn
    show "(case x of (j, n) \<Rightarrow> j \<notin> set (removed_ids (select_duplicates t (store c))))
        = (case x of (j, n) \<Rightarrow> j = canonical_id_of t (store c) (map_option lower n))"
      by (simp add: lower_name_def)
  qed
  with dedupe_table_select_id_name [OF assms(1), of t] show ?thesis by simp
qed

lemma dedupe_table_no_dups:
  assumes "dedupe_table flt t c = Inr c'" "distinct (ids_of t (store c))"
  shows "distinct (map (\<lambda>(j, n). map_option lower n) (select_id_name t (store c')))"
proof -
  let ?rows = "select_id_name t (store c)"
  let ?P = "\<lambda>(j, n). j = canonical_id_of t (store c) (map_option lower n)"
  have d: "distinct (map fst ?rows)" using assms(2) by (simp add: ids_of_select)
  then have dr: "distinct ?rows" by (simp add: distinct_map)
  have "inj_on (\<lambda>(j, n). map_option lower n) (set (filter ?P ?rows))"
  proof (rule inj_onI)
    fix x y
    assume x: "x \<in> set (filter ?P ?rows)" and y: "y \<in> set (filter ?P ?rows)"
      and k: "(case x of (j, n) \<Rightarrow> map_option lower n) = (case y of (j, n) \<Rightarrow> map_option lower n)"
    obtain j1 n1 j2 n2 where xy: "x = (j1, n1)" "y = (j2, n2)" by (cases x, cases y)
    from x xy have m1: "(j1, n1) \<in> set ?rows"
      and c1: "j1 = canonical_id_of t (store c) (map_option lower n1)" by auto
    from y xy have m2: "(j2, n2) \<in> set ?rows"
      and c2: "j2 = canonical_id_of t (store c) (map_option lower n2)" by auto
    from k xy have "map_option lower n1 = map_option lower n2" by simp
    with c1 c2 have j: "j1 = j2" by simp
    with m1 m2 d have "n1 = n2" by (meson eq_key_imp_eq_value)
    with j xy show "x = y" by simp
  qed
  with dr have "distinct (map (\<lambda>(j, n). map_option lower n) (filter ?P ?rows))"
    by (simp add: distinct_map)
  then show ?thesis unfolding dedupe_table_survivors [OF assms] .
qed

lemma subseq_ids:
  "subseq (select_id_name t d') (select_id_name t d) \<Longrightarrow> subseq (ids_of t d') (ids_of t d)"
  unfolding ids_of_select by (rule subseq_map)

lemma step4_no_dups:
  "step4 flt ts c = Inr c' \<Longrightarrow> t \<in> set ts \<Longrightarrow> distinct (ids_of t (store c)) \<Longrightarrow>
   distinct (map (\<lambda>(j, n). map_option lower n) (select_id_name t (store c')))"
proof (induction ts arbitrary: c)
  case Nil
  then show ?case by simp
next
  case (Cons t0 ts)
  from Cons.prems(1) obtain c1 where a: "dedupe_table flt t0 c = Inr c1"
    and b: "step4 flt ts c1 = Inr c'" by (auto split: sum.splits)
  show ?case
  proof (cases "t \<in> set ts")
    case True
    have "distinct (ids_of t (store c1))"
      using subseq_distinct [OF subseq_ids [OF dedupe_table_subseq [OF a, of t]] Cons.prems(3)] .
    from Cons.IH [OF b True this] show ?thesis .
  next
    case False
    with Cons.prems(2) have t0: "t0 = t" by simp
    from dedupe_table_no_dups [OF a [unfolded t0] Cons.prems(3)]
    have "distinct (map (\<lambda>(j, n). map_option lower n) (select_id_name t (store c1)))" .
    moreover have "subseq (map (\<lambda>(j, n). map_option lower n) (select_id_name t (store c')))
        (map (\<lambda>(j, n). map_option lower n) (select_id_name t (store c1)))"
      by (rule subseq_map [OF step4_subseq [OF b]])
    ultimately show ?thesis by (rule subseq_distinct [rotated])
  qed
qed

lemma steps_ids_subseq:
  assumes "steps flt tm c = Inr c'"
  shows "subseq (ids_of t (store c')) (ids_of t (store c))"
proof -
  from steps_Inr [OF assms] obtain c2 c3 where a: "step2 flt tm c = Inr c2"
    and b: "step3 flt tm c2 = Inr c3" and d: "step4 flt (map fst tm) c3 = Inr c'" by blast
  from subseq_ids [OF step4_subseq [OF d, of t]] subseq_ids [OF step3_subseq [OF b, of t]]
    step2_ids_subseq [OF a, of t]
  show ?thesis by (meson subseq_order.trans)
qed

lemma steps_no_dups:
  assumes "steps flt tm c = Inr c'" "t \<in> fst ` set tm" "distinct (ids_of t (store c))"
  shows "distinct (map lower_name (rows_of t (store c')))"
proof -
  from steps_Inr [OF assms(1)] obtain c2 c3 where a: "step2 flt tm c = Inr c2"
    and b: "step3 flt tm c2 = Inr c3" and d: "step4 flt (map fst tm) c3 = Inr c'" by blast
  have "subseq (ids_of t (store c3)) (ids_of t (store c))"
    using subseq_ids [OF step3_subseq [OF b, of t]] step2_ids_subseq [OF a, of t]
    by (meson subseq_order.trans)
  then have "distinct (ids_of t (store c3))" using assms(3) by (rule subseq_distinct)
  from step4_no_dups [OF d _ this] assms(2) show ?thesis
    by (simp add: lower_names_select)
qed

lemma tables_meta_tables [simp]:
  "map fst (tables_meta pn tn an) = [Pokemon, Types, Abilities, Trainers]"
  by (simp add: tables_meta_def)

lemma clean_database_no_dups:
  assumes "clean_database flt net (Some d) = Some (Committed d' tr w)" "unique_ids d"
  shows "list_all (\<lambda>t. distinct (map lower_name (rows_of t d')))
           [Pokemon, Types, Abilities, Trainers]"
proof -
  from clean_database_runs [OF assms(1)] obtain tm c where
    f: "fetch_vocabularies net = Some (Names (tm, w))"
    and s: "steps flt tm \<lparr>store = d, trace = [PragmaForeignKeysOn]\<rparr> = Inr c"
    and d': "d' = store c" by blast
  from fetch_vocabularies_tables_meta [OF f] obtain pn tn an where
    tm: "tm = tables_meta pn tn an" by blast
  then have ts: "fst ` set tm = {Pokemon, Types, Abilities, Trainers}"
    using tables_meta_tables [of pn tn an] by (metis list.set_map list.simps(15) empty_set)
  have "distinct (map lower_name (rows_of t d'))"
    if "t \<in> {Pokemon, Types, Abilities, Trainers}" for t
  proof -
    from that assms(2) have "distinct (ids_of t d)" by (auto simp: unique_ids_def)
    with steps_no_dups [OF s, of t] that ts d' show ?thesis by simp
  qed
  from this [of Pokemon] this [of Types] this [of Abilities] this [of Trainers]
  show ?thesis by simp
qed

lemma edge_not_self: "(ft, fc, t) \<in> set fk_relationships \<Longrightarrow> ft \<noteq> t"
  by (auto simp: fk_relationships_def)

lemma replay_cascade_remap_col:
  assumes "(ft, fc, t) \<in> set fk_relationships"
  shows "map (col fc) (rows_of ft (replay (cascade_remap canon dups t) d))
           = map (remap_value canon dups) (map (col fc) (rows_of ft d))"
  using assms
  by (auto simp: fk_relationships_def cascade_remap_def apply_stmt.simps remap_value_def
           split: option.splits)

lemma remap_loop_col:
  assumes "remap_loop flt canon dups t fk_relationships c = Inr c1" "schema_conforms flt"
    "(ft, fc, t) \<in> set fk_relationships"
  shows "map (col fc) (rows_of ft (store c1))
           = map (remap_value canon dups) (map (col fc) (rows_of ft (store c)))"
proof -
  from remap_loop_runs [OF assms(1)] assms(2)
  have "store c1 = replay (cascade_remap canon dups t) (store c)"
    by (auto simp: runs_def cascade_remap_def)
  with replay_cascade_remap_col [OF assms(3)] show ?thesis by simp
qed

lemma remap_value_Nil [simp]: "remap_value canon [] v = v"
  by (simp add: remap_value_def split: option.splits)

lemma dedupe_groups_col:
  "dedupe_groups flt t gs c = Inr c' \<Longrightarrow> schema_conforms flt \<Longrightarrow>
   (ft, fc, t) \<in> set fk_relationships \<Longrightarrow>
   map (col fc) (rows_of ft (store c')) = map (remap_values gs) (map (col fc) (rows_of ft (store c)))"
proof (induction gs arbitrary: c)
  case Nil
  then show ?case by simp
next
  case (Cons g gs)
  obtain n canon ids where g: "g = (n, canon, ids)" by (cases g)
  let ?dups = "filter (\<lambda>x. x \<noteq> canon) ids"
  show ?case
  proof (cases "?dups = []")
    case True
    with Cons.prems(1) g have "dedupe_groups flt t gs c = Inr c'" by simp
    from Cons.IH [OF this Cons.prems(2,3)] g True show ?thesis by simp
  next
    case False
    with Cons.prems(1) g obtain c1 c2 where
      r: "remap_loop flt canon ?dups t fk_relationships c = Inr c1"
      and d: "execute flt (DeleteWhereIdIn t ?dups) c1 = Inr c2"
      and rest: "dedupe_groups flt t gs c2 = Inr c'"
      by (auto simp: Let_def split: sum.splits)
    have "rows_of ft (store c2) = rows_of ft (store c1)"
      using execute_Inr [OF d] edge_not_self [OF Cons.prems(3)]
      by (simp add: apply_stmt.simps)
    with remap_loop_col [OF r Cons.prems(2,3)] Cons.IH [OF rest Cons.prems(2,3)] g
    show ?thesis by simp
  qed
qed

lemma filter_unique:
  "distinct (map f xs) \<Longrightarrow> r \<in> set xs \<Longrightarrow> filter (\<lambda>r'. f r' = f r) xs = [r]"
proof (induction xs)
  case Nil
  then show ?case by simp
next
  case (Cons a xs)
  show ?case
  proof (cases "a = r")
    case True
    with Cons.prems(1) have "f r \<notin> f ` set xs" by simp
    then have "filter (\<lambda>r'. f r' = f r) xs = []"
      unfolding filter_empty_conv by (metis imageI)
    with True show ?thesis by simp
  next
    case False
    with Cons.prems have "r \<in> set xs" "f a \<noteq> f r" by auto
    with Cons show ?thesis by simp
  qed
qed

lemma group_ids_key:
  assumes "distinct (ids_of t d)" "x \<in> set (group_ids t d k)"
  shows "canonical_ref t d x = canonical_id_of t d k"
proof -
  from assms(2) obtain r where r: "r \<in> set (rows_of t d)" "lower_name r = k" "r_id r = x"
    by (auto simp: group_ids_def)
  from filter_unique [of r_id "rows_of t d" r] assms(1) r(1)
  have "filter (\<lambda>r'. r_id r' = x) (rows_of t d) = [r]"
    by (simp add: ids_of_def r(3))
  with r(2) show ?thesis by (simp add: canonical_ref_def)
qed

lemma group_ids_disjoint:
  assumes "distinct (ids_of t d)" "x \<in> set (group_ids t d k)" "x \<in> set (group_ids t d k')"
  shows "k = k'"
proof -
  from assms(2) obtain r where r: "r \<in> set (rows_of t d)" "lower_name r = k" "r_id r = x"
    by (auto simp: group_ids_def)
  from assms(3) obtain r' where r': "r' \<in> set (rows_of t d)" "lower_name r' = k'" "r_id r' = x"
    by (auto simp: group_ids_def)
  from assms(1) r(1,3) r'(1,3) have "r = r'"
    by (auto simp: ids_of_def distinct_map dest: inj_onD)
  with r(2) r'(2) show ?thesis by simp
qed

lemma canonical_ref_not_id:
  "x \<notin> set (ids_of t d) \<Longrightarrow> canonical_ref t d x = x"
proof -
  assume "x \<notin> set (ids_of t d)"
  then have "filter (\<lambda>r. r_id r = x) (rows_of t d) = []"
    by (auto simp: ids_of_def filter_empty_conv)
  then show ?thesis by (simp add: canonical_ref_def)
qed

lemma select_duplicates_group_of:
  "select_duplicates t d = concat (map (group_of t d) (remdups (map lower_name (rows_of t d))))"
  unfolding select_duplicates_def group_of_def [abs_def] by (rule refl)

lemma remap_values_append [simp]:
  "remap_values (gs @ gs') v = remap_values gs' (remap_values gs v)"
  by (induction gs arbitrary: v) auto

lemma remap_values_group_of:
  "remap_values (group_of t d k) (Some x) =
     (if 1 < length (group_ids t d k) \<and> x \<in> set (group_ids t d k)
      then Some (canonical_id_of t d k) else Some x)"
  by (auto simp: group_of_def Let_def group_ids_def canonical_id_of_def remap_value_def)

lemma remap_values_groups:
  assumes "distinct (ids_of t d)"
  shows "distinct ks \<Longrightarrow>
     remap_values (concat (map (group_of t d) ks)) (Some x) =
       (if \<exists>k\<in>set ks. x \<in> set (group_ids t d k) then Some (canonical_ref t d x) else Some x)"
proof (induction ks arbitrary: x)
  case Nil
  then show ?case by simp
next
  case (Cons k ks)
  from Cons.prems have dk: "distinct ks" and kn: "k \<notin> set ks" by simp_all
  note IH = Cons.IH [OF dk]
  show ?case
  proof (cases "x \<in> set (group_ids t d k)")
    case False
    then have "remap_values (group_of t d k) (Some x) = Some x"
      by (simp add: remap_values_group_of)
    with IH [of x] False show ?thesis by simp
  next
    case True
    have ref: "canonical_ref t d x = canonical_id_of t d k"
      by (rule group_ids_key [OF assms True])
    have notin: "y \<notin> set (group_ids t d k')" if "y \<in> set (group_ids t d k)" "k' \<in> set ks" for y k'
      using group_ids_disjoint [OF assms that(1)] that(2) kn by blast
    show ?thesis
    proof (cases "1 < length (group_ids t d k)")
      case long: True
      from True have ne: "set (group_ids t d k) \<noteq> {}" by auto
      have "canonical_id_of t d k \<in> set (group_ids t d k)"
        unfolding canonical_id_of_def by (rule Min_in [OF _ ne]) simp
      from notin [OF this] have "\<not> (\<exists>k'\<in>set ks. canonical_id_of t d k \<in> set (group_ids t d k'))"
        by blast
      with IH [of "canonical_id_of t d k"]
      have "remap_values (concat (map (group_of t d) ks)) (Some (canonical_id_of t d k))
              = Some (canonical_id_of t d k)" by simp
      with long True ref show ?thesis by (simp add: remap_values_group_of)
    next
      case short: False
      with True have "group_ids t d k = [x]"
        by (cases "group_ids t d k") (auto simp: not_less)
      then have "canonical_id_of t d k = x" by (simp add: canonical_id_of_def)
      moreover from notin [OF True] have "\<not> (\<exists>k'\<in>set ks. x \<in> set (group_ids t d k'))" by blast
      ultimately show ?thesis using IH [of x] short True ref
        by (simp add: remap_values_group_of)
    qed
  qed
qed

lemma remap_values_select_duplicates:
  assumes "distinct (ids_of t d)"
  shows "remap_values (select_duplicates t d) v = map_option (canonical_ref t d) v"
proof (cases v)
  case None
  have "remap_values gs None = None" for gs
    by (induction gs) (auto simp: remap_value_def)
  with None show ?thesis by simp
next
  case (Some x)
  have "\<not> (\<exists>k\<in>set (remdups (map lower_name (rows_of t d))). x \<in> set (group_ids t d k))
          \<Longrightarrow> canonical_ref t d x = x"
    by (rule canonical_ref_not_id) (auto simp: ids_of_def group_ids_def)
  with remap_values_groups [OF assms, of "remdups (map lower_name (rows_of t d))" x] Some
  show ?thesis by (auto simp: select_duplicates_group_of)
qed

lemma dedupe_table_col:
  assumes "dedupe_table flt t c = Inr c'" "schema_conforms flt" "distinct (ids_of t (store c))"
    "(ft, fc, t) \<in> set fk_relationships"
  shows "map (col fc) (rows_of ft (store c'))
           = map (map_option (canonical_ref t (store c))) (map (col fc) (rows_of ft (store c)))"
proof -
  from assms(1) obtain c1 where s: "execute flt (SelectDuplicates t) c = Inr c1"
    and g: "dedupe_groups flt t (select_duplicates t (store c1)) c1 = Inr c'"
    by (auto simp: dedupe_table_def split: sum.splits)
  have 1: "store c1 = store c" using execute_Inr [OF s] by (simp add: apply_stmt.simps)
  from dedupe_groups_col [OF g assms(2,4)] remap_values_select_duplicates [OF assms(3)]
  show ?thesis unfolding 1 by (simp add: fun_eq_iff cong: map_cong)
qed

lemma dedup_sample_run:
  "dedupe_table no_faults Types \<lparr>store = dedup_sample, trace = []\<rparr>
     = Inr \<lparr>store = dedup_sample_after,
            trace = [SelectDuplicates Types, UpdateFkRemap Pokemon Type1_id 1 [2],
                     UpdateFkRemap Pokemon Type2_id 1 [2], DeleteWhereIdIn Types [2]]\<rparr>"
  by code_simp

lemma unique_ids_sample_db: "unique_ids sample_db"
  by code_simp

text \<open>
  Claim C2. After a committed run on a dataset whose ids are unique within each table,
  no two rows left in an entity table have case-insensitively equal names. The
  deduplication of a table keeps, of the rows that share a case-insensitive name,
  exactly the one with the least id; it rewrites every foreign key of the edge list
  that refers to a row of the table to the least id of that row's group (a key to
  the kept row or to no row is unchanged); and each \<open>DELETE\<close> of the other rows of a
  group comes right after the rewriting statements of all the edges to the table.
\<close>

theorem duplicates_merged_into_least_id:
  assumes "clean_database flt net (Some d) = Some (Committed d' tr w)" "unique_ids d"
  shows "list_all (\<lambda>t. distinct (map lower_name (rows_of t d')))
           [Pokemon, Types, Abilities, Trainers]
       \<and> (dedupe_table flt t c = Inr c1 \<and> distinct (ids_of t (store c)) \<longrightarrow>
            select_id_name t (store c1) =
              filter (\<lambda>(j, n). j = canonical_id_of t (store c) (map_option lower n))
                (select_id_name t (store c))
            \<and> (schema_conforms flt \<longrightarrow>
                 list_all (\<lambda>(ft, fc, rt). rt = t \<longrightarrow>
                     map (col fc) (rows_of ft (store c1)) =
                       map (map_option (canonical_ref t (store c)))
                         (map (col fc) (rows_of ft (store c))))
                   fk_relationships
                 \<and> (\<exists>qs. trace c1 = trace c @ qs \<and> self_guarded qs)))"
proof -
  have 1: "list_all (\<lambda>t. distinct (map lower_name (rows_of t d')))
           [Pokemon, Types, Abilities, Trainers]"
    by (rule clean_database_no_dups [OF assms])
  have 2: "select_id_name t (store c1) =
              filter (\<lambda>(j, n). j = canonical_id_of t (store c) (map_option lower n))
                (select_id_name t (store c))
            \<and> (schema_conforms flt \<longrightarrow>
                 list_all (\<lambda>(ft, fc, rt). rt = t \<longrightarrow>
                     map (col fc) (rows_of ft (store c1)) =
                       map (map_option (canonical_ref t (store c)))
                         (map (col fc) (rows_of ft (store c))))
                   fk_relationships
                 \<and> (\<exists>qs. trace c1 = trace c @ qs \<and> self_guarded qs))"
    if r: "dedupe_table flt t c = Inr c1" and u: "distinct (ids_of t (store c))"
  proof -
    have a: "select_id_name t (store c1) =
              filter (\<lambda>(j, n). j = canonical_id_of t (store c) (map_option lower n))
                (select_id_name t (store c))"
      by (rule dedupe_table_survivors [OF r u])
    have b: "list_all (\<lambda>(ft, fc, rt). rt = t \<longrightarrow>
                     map (col fc) (rows_of ft (store c1)) =
                       map (map_option (canonical_ref t (store c)))
                         (map (col fc) (rows_of ft (store c))))
                   fk_relationships" if "schema_conforms flt"
      unfolding list_all_iff using dedupe_table_col [OF r that u] by blast
    have c: "\<exists>qs. trace c1 = trace c @ qs \<and> self_guarded qs" if "schema_conforms flt"
      using dedupe_table_runs [OF r] that by (auto simp: runs_def)
    from a b c show ?thesis by blast
  qed
  from 1 2 show ?thesis by blast
qed

text \<open>
  The sample dataset, where Pikuchu is corrected to the name of the first row and then
  merged into it; and the deduplication of a types table with Electric twice.
\<close>

theorem duplicates_merged_into_least_id_witness:
  "clean_database no_faults sample_net (Some sample_db)
     = Some (Committed sample_cleaned sample_trace [FetchWarning ''ability''])
   \<and> unique_ids sample_db
   \<and> list_all (\<lambda>t. distinct (map lower_name (rows_of t sample_cleaned)))
        [Pokemon, Types, Abilities, Trainers]
   \<and> dedupe_table no_faults Types \<lparr>store = dedup_sample, trace = []\<rparr>
     = Inr \<lparr>store = dedup_sample_after,
            trace = [SelectDuplicates Types, UpdateFkRemap Pokemon Type1_id 1 [2],
                     UpdateFkRemap Pokemon Type2_id 1 [2], DeleteWhereIdIn Types [2]]\<rparr>
   \<and> distinct (ids_of Types dedup_sample)
   \<and> schema_conforms no_faults
   \<and> select_id_name Types dedup_sample_after =
        filter (\<lambda>(j, n). j = canonical_id_of Types dedup_sample (map_option lower n))
          (select_id_name Types dedup_sample)
   \<and> list_all (\<lambda>(ft, fc, rt). rt = Types \<longrightarrow>
          map (col fc) (rows_of ft dedup_sample_after) =
            map (map_option (canonical_ref Types dedup_sample))
              (map (col fc) (rows_of ft dedup_sample)))
        fk_relationships
   \<and> canonical_ref Types dedup_sample 2 = 1
   \<and> self_guarded [SelectDuplicates Types, UpdateFkRemap Pokemon Type1_id 1 [2],
                     UpdateFkRemap Pokemon Type2_id 1 [2], DeleteWhereIdIn Types [2]]"
proof -
  let ?c = "\<lparr>store = dedup_sample, trace = []\<rparr>"
  let ?qs = "[SelectDuplicates Types, UpdateFkRemap Pokemon Type1_id 1 [2],
                     UpdateFkRemap Pokemon Type2_id 1 [2], DeleteWhereIdIn Types [2]]"
  let ?c1 = "\<lparr>store = dedup_sample_after, trace = ?qs\<rparr>"
  have u: "distinct (ids_of Types (store ?c))" by code_simp
  note th = duplicates_merged_into_least_id [OF sample_run unique_ids_sample_db,
      where t = Types and c = ?c and ?c1.0 = ?c1]
  from th have 1: "list_all (\<lambda>t. distinct (map lower_name (rows_of t sample_cleaned)))
        [Pokemon, Types, Abilities, Trainers]" by blast
  from th dedup_sample_run u
  have core: "select_id_name Types (store ?c1) =
              filter (\<lambda>(j, n). j = canonical_id_of Types (store ?c) (map_option lower n))
                (select_id_name Types (store ?c))
            \<and> (schema_conforms no_faults \<longrightarrow>
                 list_all (\<lambda>(ft, fc, rt). rt = Types \<longrightarrow>
                     map (col fc) (rows_of ft (store ?c1)) =
                       map (map_option (canonical_ref Types (store ?c)))
                         (map (col fc) (rows_of ft (store ?c))))
                   fk_relationships
                 \<and> (\<exists>qs. trace ?c1 = trace ?c @ qs \<and> self_guarded qs))" by blast
  from core have 2: "select_id_name Types dedup_sample_after =
        filter (\<lambda>(j, n). j = canonical_id_of Types dedup_sample (map_option lower n))
          (select_id_name Types dedup_sample)" by simp
  from core schema_conforms_no_faults
  have 3: "list_all (\<lambda>(ft, fc, rt). rt = Types \<longrightarrow>
          map (col fc) (rows_of ft dedup_sample_after) =
            map (map_option (canonical_ref Types dedup_sample))
              (map (col fc) (rows_of ft dedup_sample)))
        fk_relationships" by simp
  from core schema_conforms_no_faults have 4: "self_guarded ?qs" by simp
  have 5: "canonical_ref Types dedup_sample 2 = 1" by code_simp
  from u have u': "distinct (ids_of Types dedup_sample)" by simp
  from sample_run unique_ids_sample_db 1 dedup_sample_run u' schema_conforms_no_faults 2 3 5 4
  show ?thesis by blast
qed

section \<open>What the correction pass leaves behind\<close>

lemma select_name_where_id_None:
  "select_name_where_id t i d = None \<Longrightarrow> i \<notin> fst ` set (select_id_name t d)"
proof -
  assume a: "select_name_where_id t i d = None"
  then have "filter (\<lambda>r. r_id r = i) (rows_of t d) = []"
    by (simp add: select_name_where_id_def split: list.splits)
  then have "\<forall>r\<in>set (rows_of t d). r_id r \<noteq> i" by (simp add: filter_empty_conv)
  then show ?thesis by (auto simp: select_id_name_def)
qed

lemma select_name_where_id_Some:
  assumes "select_name_where_id t i d = Some cur"
    and "distinct (map fst (select_id_name t d))"
    and "(i, n) \<in> set (select_id_name t d)"
  shows "n = cur"
proof -
  from assms(1) obtain r rs where f: "filter (\<lambda>r. r_id r = i) (rows_of t d) = r # rs"
    and cur: "cur = r_name r"
    by (auto simp: select_name_where_id_def split: list.splits)
  from f have "r \<in> set (filter (\<lambda>r. r_id r = i) (rows_of t d))" by simp
  then have "r \<in> set (rows_of t d)" "r_id r = i" by simp_all
  then have "(i, cur) \<in> set (select_id_name t d)"
    using cur by (force simp: select_id_name_def)
  with assms(2,3) show ?thesis by (meson eq_key_imp_eq_value)
qed

text \<open>The names that the update loop leaves behind.\<close>

lemma update_loop_names:
  "update_loop flt t ups c = Inr c' \<Longrightarrow> distinct (map fst (select_id_name t (store c))) \<Longrightarrow>
   distinct (map fst ups) \<Longrightarrow>
   select_id_name t (store c') =
     map (\<lambda>(j, n). (j, case map_of (map (\<lambda>(i, new, orig). (i, new)) ups) j of
                          None \<Rightarrow> n | Some new \<Rightarrow> Some new))
       (select_id_name t (store c))"
proof (induction ups arbitrary: c)
  case Nil
  then show ?case by (simp add: case_prod_unfold)
next
  case (Cons u ups)
  obtain i new orig where u: "u = (i, new, orig)" by (cases u)
  let ?rows = "select_id_name t (store c)"
  let ?m = "map_of (map (\<lambda>(i, new, orig). (i, new)) ups)"
  from Cons.prems(3) u have dups: "distinct (map fst ups)" and i_ups: "i \<notin> fst ` set ups"
    by auto
  from i_ups have mi: "?m i = None"
    by (auto simp: map_of_eq_None_iff image_iff case_prod_unfold)
  from Cons.prems(1) u obtain c1 where
    s: "execute flt (SelectNameWhereId t i) c = Inr c1"
    by (auto split: sum.splits)
  have 1: "select_id_name t (store c1) = ?rows"
    using execute_Inr [OF s] by (simp add: select_id_name_apply)
  from Cons.prems(1) u s consider
    (none) "select_name_where_id t i (store c1) = None" "update_loop flt t ups c1 = Inr c'"
    | (same) "select_name_where_id t i (store c1) = Some (Some new)"
        "update_loop flt t ups c1 = Inr c'"
    | (upd) c2 where "execute flt (UpdateNameWhereId t new i) c1 = Inr c2"
        "update_loop flt t ups c2 = Inr c'"
    by (auto split: sum.splits option.splits if_splits)
  then show ?case
  proof cases
    case none
    from select_name_where_id_None [OF none(1)] 1 have ni: "i \<notin> fst ` set ?rows" by simp
    from Cons.IH [OF none(2) _ dups] Cons.prems(2) 1
    have "select_id_name t (store c') =
       map (\<lambda>(j, n). (j, case ?m j of None \<Rightarrow> n | Some new \<Rightarrow> Some new)) ?rows" by simp
    also have "\<dots> = map (\<lambda>(j, n). (j, case map_of (map (\<lambda>(i, new, orig). (i, new)) (u # ups)) j of
                          None \<Rightarrow> n | Some new \<Rightarrow> Some new)) ?rows"
    proof (rule map_cong [OF refl])
      fix x assume x: "x \<in> set ?rows"
      obtain j n where jn: "x = (j, n)" by (cases x)
      with x ni have "j \<noteq> i" by force
      with jn u show "(case x of (j, n) \<Rightarrow> (j, case ?m j of None \<Rightarrow> n | Some new \<Rightarrow> Some new))
          = (case x of (j, n) \<Rightarrow> (j, case map_of (map (\<lambda>(i, new, orig). (i, new)) (u # ups)) j of
                          None \<Rightarrow> n | Some new \<Rightarrow> Some new))"
        by simp
    qed
    finally show ?thesis .
  next
    case same
    from Cons.IH [OF same(2) _ dups] Cons.prems(2) 1
    have "select_id_name t (store c') =
       map (\<lambda>(j, n). (j, case ?m j of None \<Rightarrow> n | Some new \<Rightarrow> Some new)) ?rows" by simp
    also have "\<dots> = map (\<lambda>(j, n). (j, case map_of (map (\<lambda>(i, new, orig). (i, new)) (u # ups)) j of
                          None \<Rightarrow> n | Some new \<Rightarrow> Some new)) ?rows"
    proof (rule map_cong [OF refl])
      fix x assume x: "x \<in> set ?rows"
      obtain j n where jn: "x = (j, n)" by (cases x)
      have "n = Some new" if "j = i"
        using select_name_where_id_Some [OF same(1), of n] Cons.prems(2) 1 x jn that by simp
      with jn u mi show "(case x of (j, n) \<Rightarrow> (j, case ?m j of None \<Rightarrow> n | Some new \<Rightarrow> Some new))
          = (case x of (j, n) \<Rightarrow> (j, case map_of (map (\<lambda>(i, new, orig). (i, new)) (u # ups)) j of
                          None \<Rightarrow> n | Some new \<Rightarrow> Some new))"
        by (cases "j = i") simp_all
    qed
    finally show ?thesis .
  next
    case upd
    have 2: "select_id_name t (store c2) =
        map (\<lambda>(j, m). if j = i then (j, Some new) else (j, m)) ?rows"
      using execute_Inr [OF upd(1)] 1 by (simp add: select_id_name_apply)
    then have "map fst (select_id_name t (store c2)) = map fst ?rows"
      by (simp add: case_prod_unfold comp_def)
    with Cons.prems(2) have d2: "distinct (map fst (select_id_name t (store c2)))" by simp
    from Cons.IH [OF upd(2) d2 dups] 2
    have "select_id_name t (store c') =
       map (\<lambda>(j, n). (j, case ?m j of None \<Rightarrow> n | Some new \<Rightarrow> Some new))
         (map (\<lambda>(j, m). if j = i then (j, Some new) else (j, m)) ?rows)" by simp
    also have "\<dots> = map (\<lambda>(j, n). (j, case map_of (map (\<lambda>(i, new, orig). (i, new)) (u # ups)) j of
                          None \<Rightarrow> n | Some new \<Rightarrow> Some new)) ?rows"
      unfolding map_map
    proof (rule map_cong [OF refl])
      fix x assume x: "x \<in> set ?rows"
      obtain j n where jn: "x = (j, n)" by (cases x)
      with u mi show "((\<lambda>(j, n). (j, case ?m j of None \<Rightarrow> n | Some new \<Rightarrow> Some new))
            \<circ> (\<lambda>(j, m). if j = i then (j, Some new) else (j, m))) x
          = (case x of (j, n) \<Rightarrow> (j, case map_of (map (\<lambda>(i, new, orig). (i, new)) (u # ups)) j of
                          None \<Rightarrow> n | Some new \<Rightarrow> Some new))"
        by (cases "j = i") simp_all
    qed
    finally show ?thesis .
  qed
qed

text \<open>
  After the correction pass the table holds the rows that are no junk, each under the
  name that the matcher proposes for it.
\<close>

lemma correct_table_names:
  assumes "correct_table flt t m c = Inr c'" "distinct (ids_of t (store c))"
  shows "select_id_name t (store c') =
           map (\<lambda>(i, n). (i, Some (propose (valid_map m) (threshold m) (the n))))
             (filter (\<lambda>(i, n). \<not> is_junk n) (select_id_name t (store c)))"
proof -
  let ?rows = "select_id_name t (store c)"
  let ?P = "propose (valid_map m) (threshold m)"
  let ?Q = "\<lambda>(i, n). \<not> is_junk n \<and> ?P (the n) \<noteq> the n"
  let ?kept = "filter (\<lambda>(i, n). \<not> is_junk n) ?rows"
  from assms(2) have dr: "distinct (map fst ?rows)" by (simp add: ids_of_select)
  from correct_table_Inr [OF assms(1)] obtain c1 c2 ups dels where
    s: "execute flt (SelectIdName t) c = Inr c1"
    and cl: "collect (valid_map m) (threshold m) (select_id_name t (store c1)) ([], []) = (ups, dels)"
    and d: "delete_loop flt t dels c1 = Inr c2" and u: "update_loop flt t ups c2 = Inr c'"
    by blast
  have rows1: "select_id_name t (store c1) = ?rows"
    using execute_Inr [OF s] by (simp add: select_id_name_apply)
  from cl have dels: "dels = filter (\<lambda>(i, n). is_junk n) ?rows"
    and ups: "ups = map (\<lambda>(i, n). (i, ?P (the n), n)) (filter ?Q ?rows)"
    by (simp_all add: collect_eq rows1)
  have "select_id_name t (store c2) = filter (\<lambda>(j, n). j \<notin> fst ` set dels) ?rows"
    using delete_loop_select_id_name [OF d, of t] rows1 by simp
  also have "\<dots> = ?kept"
    unfolding dels using dr by (intro filter_ids_by_name)
  finally have rows2: "select_id_name t (store c2) = ?kept" .
  have dk: "distinct (map fst ?kept)" using dr by (rule distinct_map_filter)
  have fu: "map fst ups = map fst (filter ?Q ?rows)"
    unfolding ups by (simp add: comp_def case_prod_unfold)
  have du: "distinct (map fst ups)" unfolding fu using dr by (rule distinct_map_filter)
  let ?ups' = "map (\<lambda>(i, new, orig). (i, new)) ups"
  have ups': "?ups' = map (\<lambda>(i, n). (i, ?P (the n))) (filter ?Q ?rows)"
    unfolding ups by (simp add: comp_def case_prod_unfold)
  have du': "distinct (map fst ?ups')"
    unfolding ups' using du fu by (simp add: comp_def case_prod_unfold)
  from update_loop_names [OF u _ du] rows2 dk
  have "select_id_name t (store c') =
      map (\<lambda>(j, n). (j, case map_of ?ups' j of None \<Rightarrow> n | Some new \<Rightarrow> Some new)) ?kept"
    by simp
  also have "\<dots> = map (\<lambda>(i, n). (i, Some (?P (the n)))) ?kept"
  proof (rule map_cong [OF refl])
    fix x assume x: "x \<in> set ?kept"
    obtain j n where jn: "x = (j, n)" by (cases x)
    from x jn have mem: "(j, n) \<in> set ?rows" and nj: "\<not> is_junk n" by auto
    from nj obtain s where n: "n = Some s" by (cases n) (auto simp: is_junk_def)
    have "(case map_of ?ups' j of None \<Rightarrow> Some s | Some new \<Rightarrow> Some new) = Some (?P s)"
    proof (cases "?P s = s")
      case True
      have "j \<notin> fst ` set ?ups'"
      proof
        assume "j \<in> fst ` set ?ups'"
        then obtain n' where n': "(j, n') \<in> set ?rows" "?P (the n') \<noteq> the n'"
          unfolding ups' by (auto simp: case_prod_unfold)
        from dr mem n'(1) have "n' = n" by (meson eq_key_imp_eq_value)
        with n'(2) n True show False by simp
      qed
      then have "map_of ?ups' j = None" by (simp add: map_of_eq_None_iff)
      with True show ?thesis by simp
    next
      case False
      with mem nj n have "(j, ?P s) \<in> set ?ups'"
        unfolding ups' by force
      with du' have "map_of ?ups' j = Some (?P s)" by (rule map_of_is_SomeI)
      then show ?thesis by simp
    qed
    with jn n show "(case x of (j, n) \<Rightarrow> (j, case map_of ?ups' j of None \<Rightarrow> n | Some new \<Rightarrow> Some new))
        = (case x of (i, n) \<Rightarrow> (i, Some (?P (the n))))" by simp
  qed
  finally show ?thesis .
qed




section \<open>A failed fetch\<close>

lemma fetch_vocabularies_Names:
  assumes "fetch_vocabularies net = Some (Names (tm, w))"
  shows "\<exists>pn w1 tn w2 an w3.
           fetch_all_pokeapi_resources net ''pokemon'' = Some (Names (pn, w1))
         \<and> fetch_all_pokeapi_resources net ''type'' = Some (Names (tn, w2))
         \<and> fetch_all_pokeapi_resources net ''ability'' = Some (Names (an, w3))
         \<and> tm = tables_meta pn tn an \<and> w = w1 @ w2 @ w3"
  using assms unfolding fetch_vocabularies_def
  by (auto split: option.splits fetched.splits prod.splits)

text \<open>
  A failed fetch of a category leaves the empty vocabulary in the registry entry of the
  table of that category, and its warning among the printed lines.
\<close>

lemma failed_fetch_registry:
  assumes "(e, t) \<in> set category_endpoints"
    and "fetch_all_pokeapi_resources net e = Some (Names ([], [FetchWarning e]))"
    and "fetch_vocabularies net = Some (Names (tm, w))"
  shows "map_of tm t = Some (meta_of []) \<and> FetchWarning e \<in> set w"
proof -
  from fetch_vocabularies_Names [OF assms(3)] obtain pn w1 tn w2 an w3 where
    p: "fetch_all_pokeapi_resources net ''pokemon'' = Some (Names (pn, w1))"
    and ty: "fetch_all_pokeapi_resources net ''type'' = Some (Names (tn, w2))"
    and a: "fetch_all_pokeapi_resources net ''ability'' = Some (Names (an, w3))"
    and tm: "tm = tables_meta pn tn an" and w: "w = w1 @ w2 @ w3" by blast
  from assms(1) consider "e = ''pokemon''" "t = Pokemon" | "e = ''type''" "t = Types"
    | "e = ''ability''" "t = Abilities"
    by (auto simp: category_endpoints_def)
  then show ?thesis
  proof cases
    case 1
    with assms(2) p have "pn = []" "w1 = [FetchWarning e]" by simp_all
    with 1 tm w show ?thesis by (simp add: tables_meta_def)
  next
    case 2
    with assms(2) ty have "tn = []" "w2 = [FetchWarning e]" by simp_all
    with 2 tm w show ?thesis by (simp add: tables_meta_def)
  next
    case 3
    with assms(2) a have "an = []" "w3 = [FetchWarning e]" by simp_all
    with 3 tm w show ?thesis by (simp add: tables_meta_def)
  qed
qed

lemma meta_of_Nil [simp]:
  "valid_map (meta_of []) = []" "original_valid_set (meta_of []) = []"
  by (simp_all add: meta_of_def valid_map_of_def original_valid_set_of_def)

lemma empty_set_removes_all:
  assumes "remove_unvalidated flt t m c = Inr c'" "original_valid_set m = []"
  shows "rows_of t (store c') = []"
proof -
  have "select_id_name t (store c') = []"
  proof (rule ccontr)
    assume "select_id_name t (store c') \<noteq> []"
    then obtain i n where "(i, n) \<in> set (select_id_name t (store c'))"
      by (cases "select_id_name t (store c')") auto
    from remove_unvalidated_valid [OF assms(1) this] assms(2) show False
      by (simp add: not_in_valid_set_def split: option.splits)
  qed
  then show ?thesis by (simp add: select_id_name_def)
qed

lemma empty_set_run:
  assumes "steps flt tm c = Inr c'" "(t, m) \<in> set tm" "original_valid_set m = []"
  shows "rows_of t (store c') = []"
proof -
  have "select_id_name t (store c') = []"
  proof (rule ccontr)
    assume "select_id_name t (store c') \<noteq> []"
    then obtain i n where "(i, n) \<in> set (select_id_name t (store c'))"
      by (cases "select_id_name t (store c')") auto
    from steps_valid [OF assms(1,2) this] assms(3) show False
      by (simp add: not_in_valid_set_def split: option.splits)
  qed
  then show ?thesis by (simp add: select_id_name_def)
qed

lemma sample_vocabularies:
  "fetch_vocabularies sample_net
     = Some (Names (tables_meta [''mewtwo'', ''mr-mime'', ''pikachu''] [''electric'', ''grass''] [],
                    [FetchWarning ''ability'']))"
  by code_simp

lemma abilities_corrected:
  "correct_table no_faults Abilities (meta_of []) \<lparr>store = sample_db, trace = []\<rparr>
     = Inr \<lparr>store = sample_db\<lparr>t_abilities := [named_row 1 ''Static'']\<rparr>,
            trace = [SelectIdName Abilities, SelectNameWhereId Abilities 1,
                     UpdateNameWhereId Abilities ''Static'' 1]\<rparr>"
  by code_simp

lemma abilities_unvalidated:
  "remove_unvalidated no_faults Abilities (meta_of [])
       \<lparr>store = sample_db\<lparr>t_abilities := [named_row 1 ''Static'']\<rparr>, trace = []\<rparr>
     = Inr \<lparr>store = sample_db
               \<lparr>t_abilities := [],
                t_trainer_pokemon_abilities :=
                  [link_row (Some 2) (Some 3) None, link_row (Some 3) (Some 1) None]\<rparr>,
            trace = [SelectIdName Abilities,
                     UpdateFkNull Trainer_pokemon_abilities Ability_id 1,
                     DeleteWhereId Abilities 1]\<rparr>"
  by code_simp

text \<open>
  Claim C6. When a request of the fetch of a category raises, after any number of
  pages, the fetch returns no name and prints a warning, and the run goes on. In the
  registry that the run then builds, the entry of the table of that category has the
  empty reference map and the empty validity set, and the warning is among the printed
  lines. With that entry the matcher proposes for every name its own display form, so
  the correction pass of the table corrects no name towards a vocabulary entry: it
  leaves the rows that are no junk, each under the display form of its own name. No
  name is recognised, so step 3 of the source removes every row of the table, and
  after a committed run the table is empty.
\<close>

theorem failed_fetch_empties_category:
  assumes "(e, t) \<in> set category_endpoints"
    and "net e = map (\<lambda>(ns, u). Page ns (Some u)) ps @ RequestException # rest"
    and "list_all (\<lambda>(ns, u). u \<noteq> []) ps"
    and "fetch_vocabularies net = Some (Names (tm, w))"
  shows "fetch_all_pokeapi_resources net e = Some (Names ([], [FetchWarning e]))
       \<and> FetchWarning e \<in> set w
       \<and> (\<exists>m. map_of tm t = Some m \<and> valid_map m = [] \<and> original_valid_set m = []
              \<and> (\<forall>s. propose (valid_map m) (threshold m) s = to_title_case s)
              \<and> (\<forall>flt c c'. correct_table flt t m c = Inr c' \<and> distinct (ids_of t (store c))
                    \<longrightarrow> select_id_name t (store c')
                          = map (\<lambda>(i, n). (i, Some (to_title_case (the n))))
                              (filter (\<lambda>(i, n). \<not> is_junk n) (select_id_name t (store c))))
              \<and> (\<forall>flt c c'. remove_unvalidated flt t m c = Inr c' \<longrightarrow> rows_of t (store c') = []))
       \<and> (\<forall>flt d d' tr w'. clean_database flt net (Some d) = Some (Committed d' tr w')
             \<longrightarrow> w' = w \<and> rows_of t d' = [])"
proof -
  have 1: "fetch_all_pokeapi_resources net e = Some (Names ([], [FetchWarning e]))"
    unfolding fetch_all_pokeapi_resources_def assms(2)
    by (rule fetch_loop_fails [OF _ assms(3)]) (simp add: POKEAPI_BASE_URL_def)
  from failed_fetch_registry [OF assms(1) 1 assms(4)]
  have m: "map_of tm t = Some (meta_of [])" and 2: "FetchWarning e \<in> set w" by simp_all
  have a: "\<forall>s. propose (valid_map (meta_of [])) (threshold (meta_of [])) s = to_title_case s"
    by simp
  have b: "\<forall>flt c c'. correct_table flt t (meta_of []) c = Inr c' \<and> distinct (ids_of t (store c))
                    \<longrightarrow> select_id_name t (store c')
                          = map (\<lambda>(i, n). (i, Some (to_title_case (the n))))
                              (filter (\<lambda>(i, n). \<not> is_junk n) (select_id_name t (store c)))"
  proof (intro allI impI)
    fix flt c c'
    assume "correct_table flt t (meta_of []) c = Inr c' \<and> distinct (ids_of t (store c))"
    then have ct: "correct_table flt t (meta_of []) c = Inr c'"
      and di: "distinct (ids_of t (store c))" by simp_all
    from correct_table_names [OF ct di] show "select_id_name t (store c')
                          = map (\<lambda>(i, n). (i, Some (to_title_case (the n))))
                              (filter (\<lambda>(i, n). \<not> is_junk n) (select_id_name t (store c)))"
      by simp
  qed
  have c: "\<forall>flt c c'. remove_unvalidated flt t (meta_of []) c = Inr c' \<longrightarrow> rows_of t (store c') = []"
    by (auto intro: empty_set_removes_all)
  have 3: "\<exists>m. map_of tm t = Some m \<and> valid_map m = [] \<and> original_valid_set m = []
              \<and> (\<forall>s. propose (valid_map m) (threshold m) s = to_title_case s)
              \<and> (\<forall>flt c c'. correct_table flt t m c = Inr c' \<and> distinct (ids_of t (store c))
                    \<longrightarrow> select_id_name t (store c')
                          = map (\<lambda>(i, n). (i, Some (to_title_case (the n))))
                              (filter (\<lambda>(i, n). \<not> is_junk n) (select_id_name t (store c))))
              \<and> (\<forall>flt c c'. remove_unvalidated flt t m c = Inr c' \<longrightarrow> rows_of t (store c') = [])"
    using m a b c meta_of_Nil by blast
  have 4: "\<forall>flt d d' tr w'. clean_database flt net (Some d) = Some (Committed d' tr w')
             \<longrightarrow> w' = w \<and> rows_of t d' = []"
  proof (intro allI impI)
    fix flt d d' tr w'
    assume run: "clean_database flt net (Some d) = Some (Committed d' tr w')"
    from clean_database_Committed [OF run] obtain c0 tm' c2 c' where
      f: "fetch_vocabularies net = Some (Names (tm', w'))"
      and s: "steps flt tm' c0 = Inr c2" and cm: "execute flt Commit c2 = Inr c'"
      and d': "d' = store c'" by blast
    from f assms(4) have eq: "tm' = tm" "w' = w" by simp_all
    from execute_Inr [OF cm] d' have d2: "d' = store c2" by (simp add: apply_stmt.simps)
    from m have "(t, meta_of []) \<in> set tm" by (rule map_of_SomeD)
    from empty_set_run [OF s [unfolded eq] this] d2 eq
    show "w' = w \<and> rows_of t d' = []" by simp
  qed
  from 1 2 3 4 show ?thesis by blast
qed

text \<open>
  On the sample network the fetch of the abilities fails: the table of abilities is
  standardised, then emptied.
\<close>

theorem failed_fetch_empties_category_witness:
  "(''ability'', Abilities) \<in> set category_endpoints
   \<and> sample_net ''ability'' = map (\<lambda>(ns, u). Page ns (Some u)) [] @ RequestException # []
   \<and> list_all (\<lambda>(ns, u). u \<noteq> []) ([] :: (string list \<times> string) list)
   \<and> fetch_vocabularies sample_net
       = Some (Names (tables_meta [''mewtwo'', ''mr-mime'', ''pikachu''] [''electric'', ''grass''] [],
                      [FetchWarning ''ability'']))
   \<and> fetch_all_pokeapi_resources sample_net ''ability''
       = Some (Names ([], [FetchWarning ''ability'']))
   \<and> map_of (tables_meta [''mewtwo'', ''mr-mime'', ''pikachu''] [''electric'', ''grass''] [])
        Abilities = Some (meta_of [])
   \<and> correct_table no_faults Abilities (meta_of []) \<lparr>store = sample_db, trace = []\<rparr>
     = Inr \<lparr>store = sample_db\<lparr>t_abilities := [named_row 1 ''Static'']\<rparr>,
            trace = [SelectIdName Abilities, SelectNameWhereId Abilities 1,
                     UpdateNameWhereId Abilities ''Static'' 1]\<rparr>
   \<and> remove_unvalidated no_faults Abilities (meta_of [])
       \<lparr>store = sample_db\<lparr>t_abilities := [named_row 1 ''Static'']\<rparr>, trace = []\<rparr>
     = Inr \<lparr>store = sample_db
               \<lparr>t_abilities := [],
                t_trainer_pokemon_abilities :=
                  [link_row (Some 2) (Some 3) None, link_row (Some 3) (Some 1) None]\<rparr>,
            trace = [SelectIdName Abilities,
                     UpdateFkNull Trainer_pokemon_abilities Ability_id 1,
                     DeleteWhereId Abilities 1]\<rparr>
   \<and> clean_database no_faults sample_net (Some sample_db)
       = Some (Committed sample_cleaned sample_trace [FetchWarning ''ability''])
   \<and> rows_of Abilities sample_cleaned = []"
proof -
  have a: "(''ability'', Abilities) \<in> set category_endpoints"
    by (simp add: category_endpoints_def)
  have b: "sample_net ''ability''
      = map (\<lambda>(ns, u). Page ns (Some u)) [] @ RequestException # []"
    by (simp add: sample_net_def)
  have c: "list_all (\<lambda>(ns, u). u \<noteq> []) ([] :: (string list \<times> string) list)" by simp
  note th = failed_fetch_empties_category [OF a b c sample_vocabularies]
  from th have 1: "fetch_all_pokeapi_resources sample_net ''ability''
       = Some (Names ([], [FetchWarning ''ability'']))" by blast
  have 2: "map_of (tables_meta [''mewtwo'', ''mr-mime'', ''pikachu''] [''electric'', ''grass''] [])
        Abilities = Some (meta_of [])"
    by (simp add: tables_meta_def)
  from th sample_run have 3: "rows_of Abilities sample_cleaned = []" by blast
  from a b c sample_vocabularies 1 2 abilities_corrected abilities_unvalidated sample_run 3
  show ?thesis by blast
qed

section \<open>Storage errors\<close>


lemma first_fault_None: "first_fault flt qs d = None \<longleftrightarrow> no_fault flt qs d"
  by (induction qs arbitrary: d) (auto split: option.splits)
























lemma first_fault_no_faults [simp]: "first_fault no_faults qs d = None"
  by (induction qs arbitrary: d) (simp_all add: no_faults_def)

lemma tolerated_only_no_faults: "tolerated_only no_faults = no_faults"
  by (auto simp: fun_eq_iff tolerated_only_def no_faults_def)




section \<open>Foreign keys after the run\<close>

lemma fk_vals_cols: "v \<in> fk_vals ft fc d \<longleftrightarrow> Some v \<in> set (map (col fc) (rows_of ft d))"
proof
  assume "v \<in> fk_vals ft fc d"
  then obtain r where "r \<in> set (rows_of ft d)" "col fc r = Some v"
    unfolding fk_vals_def by blast
  then have "col fc r \<in> col fc ` set (rows_of ft d)" by (intro imageI)
  with \<open>col fc r = Some v\<close> show "Some v \<in> set (map (col fc) (rows_of ft d))" by simp
next
  assume "Some v \<in> set (map (col fc) (rows_of ft d))"
  then obtain r where "r \<in> set (rows_of ft d)" "col fc r = Some v" by auto
  then show "v \<in> fk_vals ft fc d" unfolding fk_vals_def by blast
qed

lemma references_exist_iff:
  "references_exist d \<longleftrightarrow>
     (\<forall>(ft, fc, rt)\<in>set fk_relationships. fk_vals ft fc d \<subseteq> set (ids_of rt d))"
proof
  assume r: "references_exist d"
  show "\<forall>(ft, fc, rt)\<in>set fk_relationships. fk_vals ft fc d \<subseteq> set (ids_of rt d)"
  proof (clarify)
    fix ft fc rt x
    assume e: "(ft, fc, rt) \<in> set fk_relationships" and "x \<in> fk_vals ft fc d"
    then obtain row where row: "row \<in> set (rows_of ft d)" "col fc row = Some x"
      by (auto simp: fk_vals_def)
    from r e row(1) have "case col fc row of None \<Rightarrow> True | Some v \<Rightarrow> v \<in> set (ids_of rt d)"
      unfolding references_exist_def list_all_iff by blast
    with row(2) show "x \<in> set (ids_of rt d)" by simp
  qed
next
  assume a: "\<forall>(ft, fc, rt)\<in>set fk_relationships. fk_vals ft fc d \<subseteq> set (ids_of rt d)"
  show "references_exist d"
    unfolding references_exist_def list_all_iff
  proof (clarify)
    fix ft fc rt row
    assume e: "(ft, fc, rt) \<in> set fk_relationships" and row: "row \<in> set (rows_of ft d)"
    show "case col fc row of None \<Rightarrow> True | Some v \<Rightarrow> v \<in> set (ids_of rt d)"
    proof (cases "col fc row")
      case None
      then show ?thesis by simp
    next
      case (Some v)
      with row have "v \<in> fk_vals ft fc d" by (auto simp: fk_vals_def)
      with a e Some show ?thesis by auto
    qed
  qed
qed

lemma references_existD:
  "references_exist d \<Longrightarrow> (ft, fc, rt) \<in> set fk_relationships \<Longrightarrow> v \<in> fk_vals ft fc d \<Longrightarrow>
   v \<in> set (ids_of rt d)"
  unfolding references_exist_iff by blast

lemma col_name_update [simp]: "col fc (r\<lparr>r_name := x\<rparr>) = col fc r"
  by (cases fc) simp_all

text \<open>One statement, seen from a column and from the ids of a table.\<close>

lemma cols_update_fk_null:
  "map (col fc) (rows_of ft (apply_stmt (UpdateFkNull ft0 fc0 i) d)) =
     (if ft = ft0 \<and> fc = fc0
      then map (\<lambda>v. if v = Some i then None else v) (map (col fc) (rows_of ft d))
      else map (col fc) (rows_of ft d))"
  by (auto simp: apply_stmt.simps comp_def)

lemma ids_of_apply:
  "ids_of rt (apply_stmt q d) =
     (case q of
        DeleteWhereId t i \<Rightarrow> if rt = t then filter (\<lambda>j. j \<noteq> i) (ids_of rt d) else ids_of rt d
      | DeleteWhereIdIn t ids \<Rightarrow>
          if rt = t then filter (\<lambda>j. j \<notin> set ids) (ids_of rt d) else ids_of rt d
      | _ \<Rightarrow> ids_of rt d)"
  unfolding ids_of_select select_id_name_apply
  by (cases q) (auto simp: filter_map comp_def case_prod_unfold)

lemma fk_edge_target:
  "(ft, fc, rt) \<in> set fk_relationships \<Longrightarrow> (ft, fc, t) \<in> set fk_relationships \<Longrightarrow> rt = t"
  by (auto simp: fk_relationships_def)

lemma null_twice:
  "map (\<lambda>v. if v = Some i then None else v) (map (\<lambda>v. if v = Some i then None else v) xs)
     = map (\<lambda>v. if v = Some i then None else v) xs"
  by (induction xs) simp_all

lemma replay_nulls_cols:
  "map (col fc) (rows_of ft (replay (map (\<lambda>(ft, fc, rt). UpdateFkNull ft fc i) es) d)) =
     (if \<exists>rt. (ft, fc, rt) \<in> set es
      then map (\<lambda>v. if v = Some i then None else v) (map (col fc) (rows_of ft d))
      else map (col fc) (rows_of ft d))"
proof (induction es arbitrary: d)
  case Nil
  then show ?case by simp
next
  case (Cons e es)
  obtain ft0 fc0 rt0 where e: "e = (ft0, fc0, rt0)" by (cases e)
  let ?d1 = "apply_stmt (UpdateFkNull ft0 fc0 i) d"
  let ?N = "\<lambda>v. if v = Some i then None else v"
  have b: "map (col fc) (rows_of ft (replay (map (\<lambda>(ft, fc, rt). UpdateFkNull ft fc i) (e # es)) d))
      = (if \<exists>rt. (ft, fc, rt) \<in> set es
         then map ?N (map (col fc) (rows_of ft ?d1)) else map (col fc) (rows_of ft ?d1))"
    unfolding e using Cons.IH [of ?d1] by simp
  show ?case
  proof (cases "ft = ft0 \<and> fc = fc0")
    case True
    have a: "map (col fc) (rows_of ft ?d1) = map ?N (map (col fc) (rows_of ft d))"
      using True by (simp add: cols_update_fk_null)
    have ex: "\<exists>rt. (ft, fc, rt) \<in> set (e # es)" using True e by auto
    show ?thesis unfolding b a null_twice using ex by simp
  next
    case False
    have a: "map (col fc) (rows_of ft ?d1) = map (col fc) (rows_of ft d)"
      using False by (auto simp: cols_update_fk_null)
    have ex: "(\<exists>rt. (ft, fc, rt) \<in> set (e # es)) = (\<exists>rt. (ft, fc, rt) \<in> set es)"
      using False unfolding e by auto
    show ?thesis unfolding b a ex ..
  qed
qed

lemma replay_nulls_ids:
  "ids_of rt (replay (map (\<lambda>(ft, fc, rt). UpdateFkNull ft fc i) es) d) = ids_of rt d"
  by (induction es arbitrary: d) (auto simp: ids_of_apply)

lemma null_mem:
  "Some v \<in> set (map (\<lambda>v. if v = Some i then None else v) xs) \<Longrightarrow> Some v \<in> set xs \<and> v \<noteq> i"
  by (induction xs) (auto split: if_splits)

lemma fk_vals_replay_cascade_null:
  assumes "(ft, fc, rt) \<in> set fk_relationships"
    and "v \<in> fk_vals ft fc (replay (cascade_null i t) d)"
  shows "v \<in> fk_vals ft fc d \<and> (rt = t \<longrightarrow> v \<noteq> i)"
proof -
  let ?es = "filter (\<lambda>(ft, fc, rt). rt = t) fk_relationships"
  have ex: "(\<exists>rt'. (ft, fc, rt') \<in> set ?es) = (rt = t)"
  proof
    assume "\<exists>rt'. (ft, fc, rt') \<in> set ?es"
    then obtain rt' where "(ft, fc, rt') \<in> set fk_relationships" "rt' = t" by auto
    with fk_edge_target [OF assms(1)] show "rt = t" by blast
  next
    assume "rt = t"
    with assms(1) have "(ft, fc, t) \<in> set ?es" by simp
    then show "\<exists>rt'. (ft, fc, rt') \<in> set ?es" by blast
  qed
  from assms(2) have m: "Some v \<in> set (map (col fc) (rows_of ft (replay (cascade_null i t) d)))"
    by (simp only: fk_vals_cols)
  have eq: "map (col fc) (rows_of ft (replay (cascade_null i t) d)) =
      (if rt = t
       then map (\<lambda>v. if v = Some i then None else v) (map (col fc) (rows_of ft d))
       else map (col fc) (rows_of ft d))"
    unfolding cascade_null_def replay_nulls_cols ex ..
  have "Some v \<in> set (map (col fc) (rows_of ft d)) \<and> (rt = t \<longrightarrow> v \<noteq> i)"
  proof (cases "rt = t")
    case True
    with m eq have "Some v \<in> set (map (\<lambda>v. if v = Some i then None else v)
        (map (col fc) (rows_of ft d)))" by simp
    from null_mem [OF this] show ?thesis by simp
  next
    case False
    with m eq show ?thesis by simp
  qed
  then show ?thesis using fk_vals_cols [of v ft fc d] by blast
qed

lemma fk_vals_delete:
  "fk_vals ft fc (apply_stmt (DeleteWhereId t i) d) \<subseteq> fk_vals ft fc d"
  "fk_vals ft fc (apply_stmt (DeleteWhereIdIn t ids) d) \<subseteq> fk_vals ft fc d"
  by (auto simp: apply_stmt.simps fk_vals_def)

lemma references_exist_delete:
  assumes "references_exist d"
  shows "references_exist (apply_stmt (DeleteWhereId t i) (replay (cascade_null i t) d))"
  unfolding references_exist_iff
proof (clarify)
  fix ft fc rt x
  assume e: "(ft, fc, rt) \<in> set fk_relationships"
    and x: "x \<in> fk_vals ft fc (apply_stmt (DeleteWhereId t i) (replay (cascade_null i t) d))"
  from x fk_vals_delete(1) have "x \<in> fk_vals ft fc (replay (cascade_null i t) d)" by blast
  from fk_vals_replay_cascade_null [OF e this]
  have x': "x \<in> fk_vals ft fc d" "rt = t \<longrightarrow> x \<noteq> i" by simp_all
  from references_existD [OF assms e x'(1)] have in_ids: "x \<in> set (ids_of rt d)" .
  have ids: "ids_of rt (apply_stmt (DeleteWhereId t i) (replay (cascade_null i t) d))
      = (if rt = t then filter (\<lambda>j. j \<noteq> i) (ids_of rt d) else ids_of rt d)"
    by (simp add: ids_of_apply cascade_null_def replay_nulls_ids)
  show "x \<in> set (ids_of rt (apply_stmt (DeleteWhereId t i) (replay (cascade_null i t) d)))"
    unfolding ids using in_ids x'(2) by auto
qed

lemma references_exist_update_name:
  assumes "references_exist d"
  shows "references_exist (apply_stmt (UpdateNameWhereId t n i) d)"
proof -
  have "map (col fc) (rows_of ft (apply_stmt (UpdateNameWhereId t n i) d))
          = map (col fc) (rows_of ft d)" for ft fc
    by (auto simp: apply_stmt.simps comp_def)
  then have "fk_vals ft fc (apply_stmt (UpdateNameWhereId t n i) d) = fk_vals ft fc d" for ft fc
    by (auto simp only: fk_vals_cols)
  with assms show ?thesis by (simp add: references_exist_iff ids_of_apply)
qed

text \<open>The invariant along the loops.\<close>

lemma delete_loop_references:
  "delete_loop flt t dels c = Inr c' \<Longrightarrow> schema_conforms flt \<Longrightarrow>
   references_exist (store c) \<Longrightarrow> references_exist (store c')"
proof (induction dels arbitrary: c)
  case Nil
  then show ?case by simp
next
  case (Cons x dels)
  obtain i n where x: "x = (i, n)" by (cases x)
  from Cons.prems(1) x obtain c1 c2 where
    n: "nullify_loop flt i t fk_relationships c = Inr c1"
    and d: "execute flt (DeleteWhereId t i) c1 = Inr c2"
    and r: "delete_loop flt t dels c2 = Inr c'"
    by (auto simp: nullify_fks_referencing_id_def split: sum.splits)
  from nullify_loop_runs [OF n] Cons.prems(2)
  have "store c1 = replay (cascade_null i t) (store c)"
    by (auto simp: runs_def cascade_null_def)
  with execute_Inr [OF d]
  have "store c2 = apply_stmt (DeleteWhereId t i) (replay (cascade_null i t) (store c))"
    by simp
  with references_exist_delete [OF Cons.prems(3)] have "references_exist (store c2)" by simp
  from Cons.IH [OF r Cons.prems(2) this] show ?case .
qed

lemma update_loop_references:
  "update_loop flt t ups c = Inr c' \<Longrightarrow> references_exist (store c) \<Longrightarrow>
   references_exist (store c')"
proof (induction ups arbitrary: c)
  case Nil
  then show ?case by simp
next
  case (Cons u ups)
  obtain i n orig where u: "u = (i, n, orig)" by (cases u)
  from Cons.prems(1) u obtain c1 where
    s: "execute flt (SelectNameWhereId t i) c = Inr c1"
    by (auto split: sum.splits)
  have 1: "store c1 = store c" using execute_Inr [OF s] by (simp add: apply_stmt.simps)
  from Cons.prems(1) u s consider
    (skip) "update_loop flt t ups c1 = Inr c'"
    | (upd) c2 where "execute flt (UpdateNameWhereId t n i) c1 = Inr c2"
        "update_loop flt t ups c2 = Inr c'"
    by (auto split: sum.splits option.splits if_splits)
  then show ?case
  proof cases
    case skip
    from Cons.IH [OF skip] Cons.prems(2) 1 show ?thesis by simp
  next
    case upd
    have "references_exist (store c2)"
      using execute_Inr [OF upd(1)] references_exist_update_name [OF Cons.prems(2)] 1 by simp
    from Cons.IH [OF upd(2) this] show ?thesis .
  qed
qed

lemma correct_table_references:
  assumes "correct_table flt t m c = Inr c'" "schema_conforms flt" "references_exist (store c)"
  shows "references_exist (store c')"
proof -
  from correct_table_Inr [OF assms(1)] obtain c1 c2 ups dels where
    s: "execute flt (SelectIdName t) c = Inr c1"
    and d: "delete_loop flt t dels c1 = Inr c2" and u: "update_loop flt t ups c2 = Inr c'"
    by blast
  have "store c1 = store c" using execute_Inr [OF s] by (simp add: apply_stmt.simps)
  with assms(3) have "references_exist (store c1)" by simp
  from update_loop_references [OF u delete_loop_references [OF d assms(2) this]]
  show ?thesis .
qed

lemma step2_references:
  "step2 flt tm c = Inr c' \<Longrightarrow> schema_conforms flt \<Longrightarrow> references_exist (store c) \<Longrightarrow>
   references_exist (store c')"
proof (induction tm arbitrary: c)
  case Nil
  then show ?case by simp
next
  case (Cons x tm)
  obtain t m where x: "x = (t, m)" by (cases x)
  from Cons.prems(1) x obtain c1 where a: "correct_table flt t m c = Inr c1"
    and b: "step2 flt tm c1 = Inr c'" by (auto split: sum.splits)
  from Cons.IH [OF b Cons.prems(2) correct_table_references [OF a Cons.prems(2,3)]]
  show ?case .
qed

lemma remove_unvalidated_references:
  assumes "remove_unvalidated flt t m c = Inr c'" "schema_conforms flt"
    "references_exist (store c)"
  shows "references_exist (store c')"
proof -
  from assms(1) obtain c1 dels where s: "execute flt (SelectIdName t) c = Inr c1"
    and d: "delete_loop flt t dels c1 = Inr c'"
    by (auto simp: remove_unvalidated_def Let_def split: sum.splits)
  have "store c1 = store c" using execute_Inr [OF s] by (simp add: apply_stmt.simps)
  with assms(3) have "references_exist (store c1)" by simp
  from delete_loop_references [OF d assms(2) this] show ?thesis .
qed

lemma step3_references:
  "step3 flt tm c = Inr c' \<Longrightarrow> schema_conforms flt \<Longrightarrow> references_exist (store c) \<Longrightarrow>
   references_exist (store c')"
proof (induction tm arbitrary: c)
  case Nil
  then show ?case by simp
next
  case (Cons x tm)
  obtain t m where x: "x = (t, m)" by (cases x)
  from Cons.prems(1) x obtain c1 where a: "remove_unvalidated flt t m c = Inr c1"
    and b: "step3 flt tm c1 = Inr c'" by (auto split: sum.splits)
  from Cons.IH [OF b Cons.prems(2) remove_unvalidated_references [OF a Cons.prems(2,3)]]
  show ?case .
qed

text \<open>Deduplication: the columns that refer to another table.\<close>

lemma cols_update_fk_remap_other:
  "\<not> (ft = ft0 \<and> fc = fc0) \<Longrightarrow>
   map (col fc) (rows_of ft (apply_stmt (UpdateFkRemap ft0 fc0 canon dups) d))
     = map (col fc) (rows_of ft d)"
  by (auto simp: apply_stmt.simps comp_def split: option.splits)

lemma remap_loop_other_col:
  "remap_loop flt canon dups t es c = Inr c' \<Longrightarrow> (ft, fc, t) \<notin> set es \<Longrightarrow>
   map (col fc) (rows_of ft (store c')) = map (col fc) (rows_of ft (store c))"
proof (induction es arbitrary: c)
  case Nil
  then show ?case by simp
next
  case (Cons e es)
  obtain ft0 fc0 rt0 where e: "e = (ft0, fc0, rt0)" by (cases e)
  from Cons.prems(2) e have ne: "(ft, fc, t) \<notin> set es" and ne0: "rt0 = t \<longrightarrow> \<not> (ft = ft0 \<and> fc = fc0)"
    by auto
  show ?case
  proof (cases "rt0 = t")
    case False
    with Cons.prems(1) e have "remap_loop flt canon dups t es c = Inr c'" by simp
    from Cons.IH [OF this ne] show ?thesis .
  next
    case True
    from Cons.prems(1) e True consider
      (skip) "remap_loop flt canon dups t es c = Inr c'"
      | (run) c1 where "execute flt (UpdateFkRemap ft0 fc0 canon dups) c = Inr c1"
          "remap_loop flt canon dups t es c1 = Inr c'"
      by (auto split: sum.splits if_splits)
    then show ?thesis
    proof cases
      case skip
      from Cons.IH [OF skip ne] show ?thesis .
    next
      case run
      from execute_Inr [OF run(1)] ne0 True
      have "map (col fc) (rows_of ft (store c1)) = map (col fc) (rows_of ft (store c))"
        by (simp add: cols_update_fk_remap_other)
      with Cons.IH [OF run(2) ne] show ?thesis by simp
    qed
  qed
qed

lemma dedupe_groups_other_col:
  "dedupe_groups flt t gs c = Inr c' \<Longrightarrow> (ft, fc, t) \<notin> set fk_relationships \<Longrightarrow>
   fk_vals ft fc (store c') \<subseteq> fk_vals ft fc (store c)"
proof (induction gs arbitrary: c)
  case Nil
  then show ?case by simp
next
  case (Cons g gs)
  obtain n canon ids where g: "g = (n, canon, ids)" by (cases g)
  let ?dups = "filter (\<lambda>x. x \<noteq> canon) ids"
  show ?case
  proof (cases "?dups = []")
    case True
    with Cons.prems(1) g have "dedupe_groups flt t gs c = Inr c'" by simp
    from Cons.IH [OF this Cons.prems(2)] show ?thesis .
  next
    case False
    with Cons.prems(1) g obtain c1 c2 where
      r: "remap_loop flt canon ?dups t fk_relationships c = Inr c1"
      and d: "execute flt (DeleteWhereIdIn t ?dups) c1 = Inr c2"
      and rest: "dedupe_groups flt t gs c2 = Inr c'"
      by (auto simp: Let_def split: sum.splits)
    from remap_loop_other_col [OF r Cons.prems(2)]
    have "fk_vals ft fc (store c1) = fk_vals ft fc (store c)"
      by (auto simp only: fk_vals_cols)
    moreover from execute_Inr [OF d] fk_vals_delete(2) [of ft fc t ?dups "store c1"]
    have "fk_vals ft fc (store c2) \<subseteq> fk_vals ft fc (store c1)" by simp
    ultimately show ?thesis using Cons.IH [OF rest Cons.prems(2)] by blast
  qed
qed

lemma canonical_ref_survives:
  assumes "dedupe_table flt t c = Inr c'" "distinct (ids_of t (store c))"
    "v \<in> set (ids_of t (store c))"
  shows "canonical_ref t (store c) v \<in> set (ids_of t (store c'))"
proof -
  let ?d = "store c"
  from assms(3) obtain r where r: "r \<in> set (rows_of t ?d)" "r_id r = v"
    by (auto simp: ids_of_def)
  let ?k = "lower_name r"
  from r have v: "v \<in> set (group_ids t ?d ?k)" by (auto simp: group_ids_def)
  from group_ids_key [OF assms(2) v]
  have cr: "canonical_ref t ?d v = canonical_id_of t ?d ?k" .
  from v have "Min (set (group_ids t ?d ?k)) \<in> set (group_ids t ?d ?k)"
    by (intro Min_in) auto
  then have "canonical_id_of t ?d ?k \<in> set (group_ids t ?d ?k)"
    by (simp add: canonical_id_of_def)
  then obtain r' where r': "r' \<in> set (rows_of t ?d)" "lower_name r' = ?k"
    "r_id r' = canonical_id_of t ?d ?k"
    by (auto simp: group_ids_def)
  from r'(1) have "(r_id r', r_name r') \<in> set (select_id_name t ?d)"
    by (auto simp: select_id_name_def)
  moreover have "r_id r' = canonical_id_of t ?d (map_option lower (r_name r'))"
    using r'(2,3) by (simp add: lower_name_def)
  ultimately have "(r_id r', r_name r') \<in> set (select_id_name t (store c'))"
    unfolding dedupe_table_survivors [OF assms(1,2)] by simp
  then have "r_id r' \<in> set (ids_of t (store c'))"
    unfolding ids_of_select by force
  with r'(3) cr show ?thesis by simp
qed

lemma dedupe_table_references:
  assumes "dedupe_table flt t c = Inr c'" "schema_conforms flt"
    "distinct (ids_of t (store c))" "references_exist (store c)"
  shows "references_exist (store c')"
  unfolding references_exist_iff
proof (clarify)
  fix ft fc rt x
  assume e: "(ft, fc, rt) \<in> set fk_relationships" and x: "x \<in> fk_vals ft fc (store c')"
  show "x \<in> set (ids_of rt (store c'))"
  proof (cases "rt = t")
    case True
    from dedupe_table_col [OF assms(1,2,3) e [unfolded True]] x
    have "Some x \<in> set (map (map_option (canonical_ref t (store c)))
                           (map (col fc) (rows_of ft (store c))))"
      by (simp only: fk_vals_cols)
    then obtain y where y: "y \<in> set (map (col fc) (rows_of ft (store c)))"
      and my: "map_option (canonical_ref t (store c)) y = Some x"
      by (metis (no_types, lifting) imageE list.set_map)
    from my obtain v where yv: "y = Some v" and xv: "x = canonical_ref t (store c) v"
      by (cases y) auto
    from y yv have v: "Some v \<in> set (map (col fc) (rows_of ft (store c)))" by simp
    from v have "v \<in> fk_vals ft fc (store c)" by (simp only: fk_vals_cols)
    from references_existD [OF assms(4) e this] True
    have "v \<in> set (ids_of t (store c))" by simp
    from canonical_ref_survives [OF assms(1,3) this] xv True show ?thesis by simp
  next
    case False
    with fk_edge_target [OF e] have ne: "(ft, fc, t) \<notin> set fk_relationships" by blast
    from assms(1) obtain c1 where s: "execute flt (SelectDuplicates t) c = Inr c1"
      and g: "dedupe_groups flt t (select_duplicates t (store c1)) c1 = Inr c'"
      by (auto simp: dedupe_table_def split: sum.splits)
    have 1: "store c1 = store c" using execute_Inr [OF s] by (simp add: apply_stmt.simps)
    from dedupe_groups_other_col [OF g ne] x 1 have "x \<in> fk_vals ft fc (store c)" by auto
    from references_existD [OF assms(4) e this] have "x \<in> set (ids_of rt (store c))" .
    moreover have "ids_of rt (store c') = ids_of rt (store c)"
      using dedupe_table_select_id_name [OF assms(1), of rt] False
      by (simp add: ids_of_select)
    ultimately show ?thesis by simp
  qed
qed

lemma step4_references:
  "step4 flt ts c = Inr c' \<Longrightarrow> schema_conforms flt \<Longrightarrow>
   \<forall>t\<in>set ts. distinct (ids_of t (store c)) \<Longrightarrow> references_exist (store c) \<Longrightarrow>
   references_exist (store c')"
proof (induction ts arbitrary: c)
  case Nil
  then show ?case by simp
next
  case (Cons t ts)
  from Cons.prems(1) obtain c1 where a: "dedupe_table flt t c = Inr c1"
    and b: "step4 flt ts c1 = Inr c'" by (auto split: sum.splits)
  from Cons.prems(3) have dt: "distinct (ids_of t (store c))" by simp
  have "\<forall>t'\<in>set ts. distinct (ids_of t' (store c1))"
  proof
    fix t' assume "t' \<in> set ts"
    with Cons.prems(3) have "distinct (ids_of t' (store c))" by simp
    from subseq_distinct [OF subseq_ids [OF dedupe_table_subseq [OF a, of t']] this]
    show "distinct (ids_of t' (store c1))" .
  qed
  from Cons.IH [OF b Cons.prems(2) this dedupe_table_references [OF a Cons.prems(2) dt Cons.prems(4)]]
  show ?case .
qed

lemma steps_references:
  assumes "steps flt tm c = Inr c'" "schema_conforms flt"
    "\<forall>t\<in>fst ` set tm. distinct (ids_of t (store c))" "references_exist (store c)"
  shows "references_exist (store c')"
proof -
  from steps_Inr [OF assms(1)] obtain c2 c3 where a: "step2 flt tm c = Inr c2"
    and b: "step3 flt tm c2 = Inr c3" and d: "step4 flt (map fst tm) c3 = Inr c'" by blast
  have "\<forall>t\<in>set (map fst tm). distinct (ids_of t (store c3))"
  proof
    fix t assume "t \<in> set (map fst tm)"
    with assms(3) have "distinct (ids_of t (store c))" by auto
    from subseq_distinct [OF step2_ids_subseq [OF a, of t] this]
    have "distinct (ids_of t (store c2))" .
    from subseq_distinct [OF subseq_ids [OF step3_subseq [OF b, of t]] this]
    show "distinct (ids_of t (store c3))" .
  qed
  from step4_references [OF d assms(2) this
      step3_references [OF b assms(2) step2_references [OF a assms(2,4)]]]
  show ?thesis .
qed

lemma guarded_run: "self_guarded qs \<Longrightarrow> guarded (PragmaForeignKeysOn # qs @ [Commit])"
  unfolding guarded_def self_guarded_def
  by (simp add: guarded_from_append)

lemma references_exist_sample_db: "references_exist sample_db"
  by code_simp

text \<open>
  Claim C1, as stated: after a successful run every foreign key that is left refers to
  an existing row. The code rewrites a foreign key only when it deletes the row that
  the key refers to; a key that refers to no row before the run is never looked at.
  Here the only species refers to the type of id 9, which does not exist: the run
  commits, changes nothing, and the key still refers to no row.
\<close>

theorem dangling_reference_counterexample:
  "clean_database no_faults sample_net (Some dangling_sample)
     = Some (Committed dangling_sample
         [PragmaForeignKeysOn, SelectIdName Pokemon, SelectIdName Types, SelectIdName Abilities,
          SelectIdName Trainers, SelectIdName Pokemon, SelectIdName Types, SelectIdName Abilities,
          SelectIdName Trainers, SelectDuplicates Pokemon, SelectDuplicates Types,
          SelectDuplicates Abilities, SelectDuplicates Trainers, Commit]
         [FetchWarning ''ability''])
   \<and> map (col Type1_id) (rows_of Pokemon dangling_sample) = [Some 9]
   \<and> ids_of Types dangling_sample = [1]
   \<and> \<not> references_exist dangling_sample"
  by code_simp

text \<open>
  Claim C1, amended. Let the dataset before the run have no foreign key, in a column of
  the edge list, that refers to a missing row, and ids that are unique in each entity
  table; let the schema have the columns of the edge list, so that no cascade statement
  is skipped. Then after a committed run every foreign key other than \<open>NULL\<close> in a
  column of the edge list is the id of a row of the referenced table. And in the
  statements of the run, every \<open>DELETE\<close> of a row comes right after the complete
  cascade for that row: for a junk or unvalidated row, the statements that set to
  \<open>NULL\<close> the keys to it, one for each edge to the table; for duplicates, the
  statements that rewrite the keys to them to the surviving id, one for each edge to
  the table.
\<close>

theorem foreign_keys_stay_valid:
  assumes "clean_database flt net (Some d) = Some (Committed d' tr w)"
    and "schema_conforms flt" and "unique_ids d" and "references_exist d"
  shows "references_exist d'
       \<and> (\<forall>(ft, fc, rt)\<in>set fk_relationships. fk_vals ft fc d' \<subseteq> set (ids_of rt d'))
       \<and> guarded tr"
proof -
  from clean_database_runs [OF assms(1)] obtain tm c qs where
    f: "fetch_vocabularies net = Some (Names (tm, w))"
    and s: "steps flt tm \<lparr>store = d, trace = [PragmaForeignKeysOn]\<rparr> = Inr c"
    and g: "schema_conforms flt \<longrightarrow> self_guarded qs"
    and d': "d' = store c" and tr: "tr = PragmaForeignKeysOn # qs @ [Commit]" by blast
  from fetch_vocabularies_tables_meta [OF f] obtain pn tn an where
    tm: "tm = tables_meta pn tn an" by blast
  have "fst ` set tm = {Pokemon, Types, Abilities, Trainers}"
    using tables_meta_tables [of pn tn an] unfolding tm
    by (metis list.set_map list.simps(15) empty_set)
  with assms(3) have u: "\<forall>t\<in>fst ` set tm.
      distinct (ids_of t (store \<lparr>store = d, trace = [PragmaForeignKeysOn]\<rparr>))"
    by (simp add: unique_ids_def)
  from steps_references [OF s assms(2) u] assms(4) d' have 1: "references_exist d'" by simp
  from g assms(2) tr have 2: "guarded tr" by (simp add: guarded_run)
  from 1 2 show ?thesis by (simp add: references_exist_iff)
qed

text \<open>On the sample dataset.\<close>

theorem foreign_keys_stay_valid_witness:
  "clean_database no_faults sample_net (Some sample_db)
     = Some (Committed sample_cleaned sample_trace [FetchWarning ''ability''])
   \<and> schema_conforms no_faults \<and> unique_ids sample_db \<and> references_exist sample_db
   \<and> references_exist sample_cleaned
   \<and> fk_vals Trainer_pokemon_abilities Pokemon_id sample_cleaned \<subseteq> set (ids_of Pokemon sample_cleaned)
   \<and> guarded sample_trace"
proof -
  note th = foreign_keys_stay_valid [OF sample_run schema_conforms_no_faults
      unique_ids_sample_db references_exist_sample_db]
  from th have 1: "references_exist sample_cleaned" and 3: "guarded sample_trace" by blast+
  have e: "(Trainer_pokemon_abilities, Pokemon_id, Pokemon) \<in> set fk_relationships"
    by (simp add: fk_relationships_def)
  from th e have 2: "fk_vals Trainer_pokemon_abilities Pokemon_id sample_cleaned
      \<subseteq> set (ids_of Pokemon sample_cleaned)" by blast
  from sample_run schema_conforms_no_faults unique_ids_sample_db references_exist_sample_db 1 2 3
  show ?thesis by blast
qed

end
